theory Spec2Isabelle
  imports Main
begin

section \<open>The egg-drop program \<open>dpegg.cpp\<close> as HOL functions\<close>

text \<open>
  The C++ \<open>int\<close> values of the program are modelled as unbounded \<open>int\<close>: the program
  materialises a table with one entry per pair \<open>lb < ub \<le> F + 1\<close>, so the floor count of any
  run that completes is far below the range where \<open>F + 1\<close> or a drop count could overflow.
  Text written to \<open>std::cout\<close> is not modelled.  The hash function of \<open>tState\<close> only places
  keys in buckets; the tables are modelled as partial maps keyed by equality of the triple.
\<close>

subsection \<open>The state (\<open>struct tState\<close>)\<close>

record tState =
  eggs :: int
  lb :: int
  ub :: int

definition isterminal :: "tState \<Rightarrow> bool" where
  "isterminal s = (ub s = lb s + 1 \<and> lb s \<ge> 0 \<and> eggs s \<ge> 0)"

definition isfailed :: "tState \<Rightarrow> bool" where
  "isfailed s = (eggs s < 0 \<or> (eggs s = 0 \<and> ub s > lb s + 1))"

text \<open>\<open>eggdrop\<close> updates the state in place and returns whether the egg broke; the model
  returns the flag together with the updated state.\<close>

definition eggdrop :: "tState \<Rightarrow> int \<Rightarrow> int \<Rightarrow> bool \<times> tState" where
  "eggdrop s floor limit =
     (let breaks = (floor > limit) in
      if breaks then
        (let s1 = s\<lparr>eggs := eggs s - 1\<rparr> in
         (breaks, if floor < ub s1 then s1\<lparr>ub := floor\<rparr> else s1))
      else (breaks, if floor > lb s then s\<lparr>lb := floor\<rparr> else s))"

text \<open>\<open>tState::next\<close> (the name \<open>next\<close> is reserved in Isar): a copy of the state is
  built field by field and \<open>eggdrop\<close> is applied to the copy.\<close>

definition next_state :: "tState \<Rightarrow> int \<Rightarrow> int \<Rightarrow> tState" where
  "next_state s floor limit =
     (let state = \<lparr>eggs = eggs s, lb = lb s, ub = ub s\<rparr> in snd (eggdrop state floor limit))"

definition cost :: "tState \<Rightarrow> int \<Rightarrow> int \<Rightarrow> int" where
  "cost s floor limit = 1"

subsection \<open>Tables, faults and outcomes\<close>

text \<open>
  \<open>std::unordered_map<tState, int>\<close> is a partial map.  Two operations of the program have
  undefined behaviour in C++ and are faults of the model: reading through the iterator
  returned by a failed \<open>find\<close>, and indexing a vector out of range.  A computation that
  contains a \<open>while\<close> loop yields \<open>None\<close> when it does not return, \<open>Some (Inl f)\<close> when it
  runs into the fault \<open>f\<close>, and \<open>Some (Inr v)\<close> when it returns \<open>v\<close>.
\<close>

type_synonym table = "tState \<rightharpoonup> int"

datatype fault = EndIteratorDeref | IndexOutOfRange

type_synonym 'a outcome = "(fault + 'a) option"

text \<open>\<open>unordered_map::insert\<close> leaves an existing entry as it is.\<close>

definition map_insert :: "('k \<rightharpoonup> 'v) \<Rightarrow> 'k \<Rightarrow> 'v \<Rightarrow> ('k \<rightharpoonup> 'v)" where
  "map_insert m k v = (case m k of None \<Rightarrow> m(k \<mapsto> v) | Some _ \<Rightarrow> m)"

text \<open>A \<open>for\<close> loop over a fixed range whose body may fault or diverge.\<close>

fun foldM :: "('a \<Rightarrow> 's \<Rightarrow> 's outcome) \<Rightarrow> 'a list \<Rightarrow> 's \<Rightarrow> 's outcome" where
  "foldM f [] s = Some (Inr s)"
| "foldM f (x # xs) s =
     (case f x s of
        None \<Rightarrow> None
      | Some (Inl e) \<Rightarrow> Some (Inl e)
      | Some (Inr s') \<Rightarrow> foldM f xs s')"

fun mapM :: "('a \<Rightarrow> 'b outcome) \<Rightarrow> 'a list \<Rightarrow> 'b list outcome" where
  "mapM f [] = Some (Inr [])"
| "mapM f (x # xs) =
     (case f x of
        None \<Rightarrow> None
      | Some (Inl e) \<Rightarrow> Some (Inl e)
      | Some (Inr y) \<Rightarrow>
          (case mapM f xs of
             None \<Rightarrow> None
           | Some (Inl e) \<Rightarrow> Some (Inl e)
           | Some (Inr ys) \<Rightarrow> Some (Inr (y # ys))))"

subsection \<open>\<open>classic_dpegg_limit\<close>\<close>

text \<open>
  \<open>reach\<close> is a \<open>std::map\<close> keyed by the vector \<open>{d, e}\<close>.  Reading \<open>reach[k]\<close> for an absent key
  yields 0 (it also stores that 0, which no later read can tell from absence).  The inner
  loop over \<open>e\<close> either returns \<open>d\<close> from the function (\<open>Inl d\<close>) or finishes the row
  (\<open>Inr reach\<close>).
\<close>

definition reach_at :: "(int list \<rightharpoonup> int) \<Rightarrow> int list \<Rightarrow> int" where
  "reach_at reach k = (case reach k of None \<Rightarrow> 0 | Some v \<Rightarrow> v)"

function classic_e_loop :: "int \<Rightarrow> int \<Rightarrow> int \<Rightarrow> int \<Rightarrow> (int list \<rightharpoonup> int) \<Rightarrow> int + (int list \<rightharpoonup> int)" where
  "classic_e_loop F E d e reach =
     (if e \<le> E then
        (let N = 1 + reach_at reach [d - 1, e - 1] + reach_at reach [d - 1, e] in
         if N \<ge> F then Inl d
         else classic_e_loop F E d (e + 1) (reach([d, e] \<mapsto> N)))
      else Inr reach)"
  by pat_completeness auto
termination
  by (relation "measure (\<lambda>(F, E, d, e, reach). nat (E + 1 - e))") auto

function classic_d_loop :: "int \<Rightarrow> int \<Rightarrow> int \<Rightarrow> (int list \<rightharpoonup> int) \<Rightarrow> int" where
  "classic_d_loop F E d reach =
     (if d \<le> F then
        (case classic_e_loop F E d 1 reach of
           Inl r \<Rightarrow> r
         | Inr reach' \<Rightarrow> classic_d_loop F E (d + 1) reach')
      else - 1)"
  by pat_completeness auto
termination
  by (relation "measure (\<lambda>(F, E, d, reach). nat (F + 1 - d))") auto

definition classic_dpegg_limit :: "int \<Rightarrow> int \<Rightarrow> int" where
  "classic_dpegg_limit F E =
     (let reach0 = fold (\<lambda>e reach. reach([0, e] \<mapsto> 0)) [0..E] Map.empty;
          reach1 = fold (\<lambda>d reach. reach([d, 0] \<mapsto> 0)) [1..F] reach0
      in classic_d_loop F E 1 reach1)"

subsection \<open>Running a policy: \<open>run_policy_once\<close>, \<open>check_policy\<close>, \<open>total_policy_at\<close>\<close>

text \<open>
  The \<open>while\<close> loop of \<open>run_policy_once\<close>.  The action is read through the iterator
  returned by \<open>A.find(s)\<close> without a test against \<open>A.end()\<close>.  The trace \<open>aseq\<close> is always
  recorded here; a caller that passes no trace vector ignores it.
\<close>

partial_function (option) policy_loop ::
  "table \<Rightarrow> int \<Rightarrow> tState \<Rightarrow> int \<Rightarrow> int list \<Rightarrow> (fault + int \<times> int list) option" where
  [code]: "policy_loop A L s steps aseq =
     (if isterminal s then Some (Inr (steps, aseq))
      else
        (case A s of
           None \<Rightarrow> Some (Inl EndIteratorDeref)
         | Some a \<Rightarrow> policy_loop A L (snd (eggdrop s a L)) (steps + 1) (aseq @ [a])))"

definition run_policy_once :: "int \<Rightarrow> int \<Rightarrow> int \<Rightarrow> table \<Rightarrow> (int \<times> int list) outcome" where
  "run_policy_once F E L A = policy_loop A L \<lparr>eggs = E, lb = 0, ub = F + 1\<rparr> 0 []"

text \<open>
  \<open>total_policy_at\<close>: its inner \<open>while\<close> loop is the loop of \<open>run_policy_once\<close> started at
  the successor state with the step counter at 1 and without a trace.
\<close>

definition total_policy_at :: "tState \<Rightarrow> int \<Rightarrow> table \<Rightarrow> int outcome" where
  "total_policy_at snaught action A =
     foldM (\<lambda>l total_steps.
              case policy_loop A l (next_state snaught action l) 1 [] of
                None \<Rightarrow> None
              | Some (Inl e) \<Rightarrow> Some (Inl e)
              | Some (Inr (steps, _)) \<Rightarrow> Some (Inr (total_steps + steps)))
           [lb snaught..ub snaught - 1] 0"

text \<open>
  \<open>check_policy\<close>.  The flags \<open>wantD\<close> and \<open>wantH\<close> say whether the caller passed the
  histogram pointers \<open>D\<close> and \<open>H\<close>.  The result holds the returned flag, \<open>max_drops\<close>, the
  sum of the step counts (the program divides it by \<open>F + 1\<close> in floating point to get
  \<open>mean_drops\<close>), and the two histograms.
\<close>

fun bump_all :: "int list \<Rightarrow> int list \<Rightarrow> int list outcome" where
  "bump_all D [] = Some (Inr D)"
| "bump_all D (action # rest) =
     (if 0 \<le> action \<and> action < int (length D)
      then bump_all (D[nat action := D ! nat action + 1]) rest
      else Some (Inl IndexOutOfRange))"

definition check_step ::
  "int \<Rightarrow> int \<Rightarrow> table \<Rightarrow> bool \<Rightarrow> bool \<Rightarrow> int \<Rightarrow>
   int \<times> int \<times> int list \<times> (int \<rightharpoonup> int) \<Rightarrow> (int \<times> int \<times> int list \<times> (int \<rightharpoonup> int)) outcome" where
  "check_step F E A wantD wantH l acc =
     (case acc of (max_steps, sum_steps, D, H) \<Rightarrow>
        (case run_policy_once F E l A of
           None \<Rightarrow> None
         | Some (Inl e) \<Rightarrow> Some (Inl e)
         | Some (Inr (actual, aseq)) \<Rightarrow>
             (let H' = (if wantH
                        then H(actual \<mapsto> (case H actual of None \<Rightarrow> 0 | Some c \<Rightarrow> c) + 1)
                        else H);
                  sum_steps' = sum_steps + actual;
                  max_steps' = (if actual > max_steps then actual else max_steps)
              in if wantD
                 then (case bump_all D aseq of
                         None \<Rightarrow> None
                       | Some (Inl e) \<Rightarrow> Some (Inl e)
                       | Some (Inr D') \<Rightarrow> Some (Inr (max_steps', sum_steps', D', H')))
                 else Some (Inr (max_steps', sum_steps', D, H')))))"

definition check_policy ::
  "int \<Rightarrow> int \<Rightarrow> table \<Rightarrow> table \<Rightarrow> bool \<Rightarrow> bool \<Rightarrow>
   (bool \<times> int \<times> int \<times> int list \<times> (int \<rightharpoonup> int)) outcome" where
  "check_policy F E V A wantD wantH =
     (let D0 = (if wantD then map (\<lambda>l. 0) [0..F] else []);
          s = \<lparr>eggs = E, lb = 0, ub = F + 1\<rparr>
      in case V s of
           None \<Rightarrow> Some (Inl EndIteratorDeref)
         | Some nominal_value \<Rightarrow>
             (case foldM (check_step F E A wantD wantH) [0..F] (0, 0, D0, Map.empty) of
                None \<Rightarrow> None
              | Some (Inl e) \<Rightarrow> Some (Inl e)
              | Some (Inr (max_steps, sum_steps, D, H)) \<Rightarrow>
                  Some (Inr (max_steps = nominal_value, max_steps, sum_steps, D, H))))"

subsection \<open>Admissible actions\<close>

text \<open>\<open>std::min_element\<close> returns the first smallest element; on an empty vector the
  distance from \<open>cbegin\<close> is 0.\<close>

fun argmin_from :: "int \<Rightarrow> nat \<Rightarrow> nat \<Rightarrow> int list \<Rightarrow> nat" where
  "argmin_from best besti i [] = besti"
| "argmin_from best besti i (x # xs) =
     (if x < best then argmin_from x i (i + 1) xs else argmin_from best besti (i + 1) xs)"

definition argmin :: "int list \<Rightarrow> nat" where
  "argmin v = (case v of [] \<Rightarrow> 0 | x # xs \<Rightarrow> argmin_from x 0 1 xs)"

text \<open>\<open>calc_maximum_value\<close>: the loop over \<open>f\<close> stops at the first successor that is
  absent from \<open>V\<close>.  The result is the returned flag and the value left in \<open>max\<close>.\<close>

function calc_loop :: "tState \<Rightarrow> int \<Rightarrow> table \<Rightarrow> int \<Rightarrow> int \<Rightarrow> bool \<times> int" where
  "calc_loop s action V f max_along_f =
     (if f < ub s then
        (case V (next_state s action f) of
           None \<Rightarrow> (False, max_along_f)
         | Some v \<Rightarrow>
             (let this_value = cost s action f + v
              in calc_loop s action V (f + 1)
                   (if this_value > max_along_f then this_value else max_along_f)))
      else (True, max_along_f))"
  by pat_completeness auto
termination
  by (relation "measure (\<lambda>(s, action, V, f, m). nat (ub s - f))") auto

definition calc_maximum_value :: "tState \<Rightarrow> int \<Rightarrow> table \<Rightarrow> bool \<times> int" where
  "calc_maximum_value s action V = calc_loop s action V (lb s) (- 1)"

text \<open>\<open>find_admissible_actions\<close>: the loop over \<open>a\<close>, appending to the two vectors it is
  given; with \<open>break_on_increase\<close> it stops once the value just appended exceeds the one
  before it.\<close>

function find_loop ::
  "tState \<Rightarrow> table \<Rightarrow> bool \<Rightarrow> int \<Rightarrow> int list \<Rightarrow> int list \<Rightarrow> int list \<times> int list" where
  "find_loop s V break_on_increase a actions vals =
     (if a < ub s then
        (case calc_maximum_value s a V of (ok, themax) \<Rightarrow>
           if \<not> ok \<or> themax = - 1 then find_loop s V break_on_increase (a + 1) actions vals
           else
             (let actions' = actions @ [a]; vals' = vals @ [themax] in
              if break_on_increase \<and> length actions' \<ge> 2 \<and>
                 vals' ! (length vals' - 1) > vals' ! (length vals' - 2)
              then (actions', vals')
              else find_loop s V break_on_increase (a + 1) actions' vals'))
      else (actions, vals))"
  by pat_completeness auto
termination
  by (relation "measure (\<lambda>(s, V, b, a, actions, vals). nat (ub s - a))") auto

definition find_admissible_actions ::
  "tState \<Rightarrow> table \<Rightarrow> int list \<Rightarrow> int list \<Rightarrow> bool \<Rightarrow> int list \<times> int list" where
  "find_admissible_actions s V actions vals break_on_increase =
     find_loop s V break_on_increase (lb s + 1) actions vals"

subsection \<open>The table builder: \<open>initialize_terminal_entries\<close>, \<open>single_scan\<close>, \<open>main\<close>\<close>

definition initialize_terminal_entries :: "int \<Rightarrow> int \<Rightarrow> table \<Rightarrow> table" where
  "initialize_terminal_entries F E V =
     fold (\<lambda>e. fold (\<lambda>f V'. map_insert V' \<lparr>eggs = e, lb = f, ub = f + 1\<rparr> 0) [0..F]) [0..E] V"

text \<open>The actions whose value equals the minimum, in floor order.\<close>

definition ties_of :: "int list \<Rightarrow> int list \<Rightarrow> int \<Rightarrow> int list" where
  "ties_of local_arg local_val v = map fst (filter (\<lambda>(a, x). x = v) (zip local_arg local_val))"

text \<open>The choice of value and action for a state with a non-empty list of admissible
  actions (the part of the body of \<open>single_scan\<close> from \<open>argmin\<close> to the tie-break).\<close>

definition select_action ::
  "bool \<Rightarrow> tState \<Rightarrow> table \<Rightarrow> int list \<Rightarrow> int list \<Rightarrow> (int \<times> int) outcome" where
  "select_action use_tiebreak thisState A local_arg local_val =
     (let action_index = argmin local_val;
          v = local_val ! action_index;
          ties = ties_of local_arg local_val v
      in if use_tiebreak then
           (case mapM (\<lambda>a. total_policy_at thisState a A) ties of
              None \<Rightarrow> None
            | Some (Inl e) \<Rightarrow> Some (Inl e)
            | Some (Inr ties_totals) \<Rightarrow> Some (Inr (v, ties ! argmin ties_totals)))
         else Some (Inr (v, ties ! (length ties div 2))))"

text \<open>The body of the innermost loop of \<open>single_scan\<close> for one state; the scan state is
  \<open>(V, A, inserts, modifies)\<close>.\<close>

type_synonym scan_state = "table \<times> table \<times> int \<times> int"

definition scan_cell :: "bool \<Rightarrow> tState \<Rightarrow> scan_state \<Rightarrow> scan_state outcome" where
  "scan_cell use_tiebreak thisState \<sigma> =
     (case \<sigma> of (V, A, inserts, modifies) \<Rightarrow>
        if V thisState \<noteq> None \<and> isterminal thisState then Some (Inr \<sigma>)
        else
          (case find_admissible_actions thisState V [] [] True of (local_arg, local_val) \<Rightarrow>
             if local_val = [] then Some (Inr \<sigma>)
             else
               (case select_action use_tiebreak thisState A local_arg local_val of
                  None \<Rightarrow> None
                | Some (Inl e) \<Rightarrow> Some (Inl e)
                | Some (Inr (v, action)) \<Rightarrow>
                    (case V thisState of
                       Some stored \<Rightarrow>
                         if stored > v then
                           (case A thisState of
                              None \<Rightarrow> Some (Inl EndIteratorDeref)
                            | Some stored_action \<Rightarrow>
                                Some (Inr (V(thisState \<mapsto> v), A(thisState \<mapsto> action),
                                           inserts, modifies + 1)))
                         else if stored = v then
                           (case A thisState of
                              None \<Rightarrow> Some (Inl EndIteratorDeref)
                            | Some stored_action \<Rightarrow>
                                if stored_action \<noteq> action
                                then Some (Inr (V(thisState \<mapsto> v), A(thisState \<mapsto> action),
                                                inserts, modifies + 1))
                                else Some (Inr \<sigma>))
                         else Some (Inr \<sigma>)
                     | None \<Rightarrow>
                         Some (Inr (map_insert V thisState v, map_insert A thisState action,
                                    inserts + 1, modifies))))))"

definition single_scan :: "int \<Rightarrow> int \<Rightarrow> int \<Rightarrow> bool \<Rightarrow> scan_state \<Rightarrow> scan_state outcome" where
  "single_scan F Emin Emax use_tiebreak \<sigma> =
     foldM (\<lambda>e. foldM (\<lambda>l. foldM (\<lambda>u. scan_cell use_tiebreak \<lparr>eggs = e, lb = l, ub = u\<rparr>)
                                 [l + 1..F + 1])
                       (rev [0..F]))
           [Emin..Emax] \<sigma>"

text \<open>The scan loop of \<open>main\<close> for one egg level: scans are repeated until one makes no
  insertion and no modification.  The result holds the tables and the number of scans.\<close>

partial_function (option) level_loop ::
  "int \<Rightarrow> int \<Rightarrow> bool \<Rightarrow> int \<Rightarrow> table \<times> table \<Rightarrow> (fault + (table \<times> table) \<times> int) option" where
  [code]: "level_loop F e use_tiebreak s VA =
     (case single_scan F e e use_tiebreak (fst VA, snd VA, 0, 0) of
        None \<Rightarrow> None
      | Some (Inl x) \<Rightarrow> Some (Inl x)
      | Some (Inr (V', A', inserts, modifies)) \<Rightarrow>
          if inserts = 0 \<and> modifies = 0 then Some (Inr ((V', A'), s + 1))
          else level_loop F e use_tiebreak (s + 1) (V', A'))"

text \<open>The part of \<open>main\<close> that builds the two tables for a valid instance.  The result
  holds the tables and, for each egg level in turn, the number of scans that \<open>main\<close> prints
  when the level is done.\<close>

definition build_tables :: "int \<Rightarrow> int \<Rightarrow> bool \<Rightarrow> ((table \<times> table) \<times> int list) outcome" where
  "build_tables F E use_tiebreak =
     foldM (\<lambda>e (VA, scans).
              case level_loop F e use_tiebreak 0 VA of
                None \<Rightarrow> None
              | Some (Inl x) \<Rightarrow> Some (Inl x)
              | Some (Inr (VA', n)) \<Rightarrow> Some (Inr (VA', scans @ [n])))
           [1..E] ((initialize_terminal_entries F E Map.empty, Map.empty), [])"

subsection \<open>Runs of in-range probes\<close>

text \<open>A run that applies \<open>tState::next\<close> for a list of (probe floor, threshold) pairs, as
  long as every probe lies strictly between the bounds of the state it is applied to.\<close>

fun probe_run :: "tState \<Rightarrow> (int \<times> int) list \<Rightarrow> tState option" where
  "probe_run s [] = Some s"
| "probe_run s ((p, L) # rest) =
     (if lb s < p \<and> p < ub s then probe_run (next_state s p L) rest else None)"

subsection \<open>The classical recurrence\<close>

text \<open>\<open>reachable d e\<close> is the number of floors that \<open>d\<close> drops with \<open>e\<close> eggs can tell apart
  (the recurrence that \<open>classic_dpegg_limit\<close> tabulates), and \<open>mindrops e n\<close> is the least
  number of drops that handles an interval of width \<open>n\<close> with \<open>e\<close> eggs.\<close>

fun reachable :: "nat \<Rightarrow> nat \<Rightarrow> nat" where
  "reachable 0 e = 0"
| "reachable (Suc d) 0 = 0"
| "reachable (Suc d) (Suc e) = 1 + reachable d e + reachable d (Suc e)"

definition mindrops :: "nat \<Rightarrow> nat \<Rightarrow> nat" where
  "mindrops e n = (LEAST d. n \<le> reachable d e + 1)"

subsection \<open>Admissible actions as lists\<close>

text \<open>\<open>cand\<close> says that \<open>find_admissible_actions\<close> keeps an action, \<open>cval\<close> is the value it
  stores for it; \<open>cut_vals\<close> describes where the early stop cuts the list of values, and
  \<open>valley\<close> says that a list first does not increase and then does not decrease.\<close>

definition cand :: "tState \<Rightarrow> table \<Rightarrow> int \<Rightarrow> bool" where
  "cand s V a = (case calc_maximum_value s a V of (ok, themax) \<Rightarrow> ok \<and> themax \<noteq> - 1)"

definition cval :: "tState \<Rightarrow> table \<Rightarrow> int \<Rightarrow> int" where
  "cval s V a = snd (calc_maximum_value s a V)"

definition candidates :: "tState \<Rightarrow> table \<Rightarrow> int \<Rightarrow> int list" where
  "candidates s V a = filter (cand s V) [a..ub s - 1]"

fun cut_incr :: "int \<Rightarrow> int list \<Rightarrow> int list" where
  "cut_incr p [] = []"
| "cut_incr p (y # ys) = (if y > p then [y] else y # cut_incr y ys)"

definition cut_vals :: "int list \<Rightarrow> int list \<Rightarrow> int list" where
  "cut_vals vals ys =
     (if vals = [] then (case ys of [] \<Rightarrow> [] | y # ys' \<Rightarrow> y # cut_incr y ys')
      else cut_incr (last vals) ys)"

fun valley :: "int list \<Rightarrow> bool" where
  "valley (x # y # zs) = (if x < y then sorted (y # zs) else valley (y # zs))"
| "valley xs = True"

subsection \<open>Invariants of the tables\<close>

text \<open>\<open>val_of s\<close> is the optimal number of drops from state \<open>s\<close>.  \<open>tables_inv F E e V A\<close>
  describes the tables while level \<open>e\<close> is being built: every stored value is the optimal
  one, the terminal states and the levels below \<open>e\<close> are complete, and every stored action is
  an in-range probe whose two successors are stored and which attains the value.\<close>

definition wf_state :: "int \<Rightarrow> int \<Rightarrow> tState \<Rightarrow> bool" where
  "wf_state F E s \<longleftrightarrow> 0 \<le> eggs s \<and> eggs s \<le> E \<and> 0 \<le> lb s \<and> lb s < ub s \<and> ub s \<le> F + 1"

definition val_of :: "tState \<Rightarrow> int" where
  "val_of s = int (mindrops (nat (eggs s)) (nat (ub s - lb s)))"

definition tables_inv :: "int \<Rightarrow> int \<Rightarrow> int \<Rightarrow> table \<Rightarrow> table \<Rightarrow> bool" where
  "tables_inv F E e V A \<longleftrightarrow>
     (\<forall>s v. V s = Some v \<longrightarrow>
         wf_state F E s \<and> v = val_of s \<and> (ub s \<noteq> lb s + 1 \<longrightarrow> 1 \<le> eggs s \<and> eggs s \<le> e)) \<and>
     (\<forall>s. wf_state F E s \<and> ub s = lb s + 1 \<longrightarrow> V s \<noteq> None) \<and>
     (\<forall>s. wf_state F E s \<and> 1 \<le> eggs s \<and> eggs s < e \<longrightarrow> V s \<noteq> None) \<and>
     (\<forall>s a. A s = Some a \<longrightarrow>
         V s \<noteq> None \<and> ub s \<noteq> lb s + 1 \<and> lb s < a \<and> a < ub s \<and>
         V \<lparr>eggs = eggs s - 1, lb = lb s, ub = a\<rparr> \<noteq> None \<and>
         V \<lparr>eggs = eggs s, lb = a, ub = ub s\<rparr> \<noteq> None \<and>
         val_of s = 1 + max (val_of \<lparr>eggs = eggs s - 1, lb = lb s, ub = a\<rparr>)
                            (val_of \<lparr>eggs = eggs s, lb = a, ub = ub s\<rparr>)) \<and>
     (\<forall>s. V s \<noteq> None \<and> ub s \<noteq> lb s + 1 \<longrightarrow> A s \<noteq> None)"

definition past :: "tState \<Rightarrow> tState \<Rightarrow> bool" where
  "past s0 t \<longleftrightarrow> eggs t < eggs s0 \<or> (eggs t \<le> eggs s0 \<and> lb s0 < lb t)"

definition split_val :: "tState \<Rightarrow> int \<Rightarrow> int" where
  "split_val s a = 1 + max (val_of \<lparr>eggs = eggs s - 1, lb = lb s, ub = a\<rparr>)
                           (val_of \<lparr>eggs = eggs s, lb = a, ub = ub s\<rparr>)"

text \<open>\<open>cell_ok\<close>: running the body of the scan on the state reproduces its stored entries.\<close>

definition cell_ok :: "bool \<Rightarrow> table \<Rightarrow> table \<Rightarrow> tState \<Rightarrow> bool" where
  "cell_ok tb V A t \<longleftrightarrow>
     (V t \<noteq> None \<and> isterminal t) \<or>
     (\<not> isterminal t \<and>
      (\<exists>acts vals a.
         find_admissible_actions t V [] [] True = (acts, vals) \<and> vals \<noteq> [] \<and>
         (\<forall>b\<in>set acts. lb t < b \<and> b < ub t \<and>
              V \<lparr>eggs = eggs t - 1, lb = lb t, ub = b\<rparr> \<noteq> None \<and>
              V \<lparr>eggs = eggs t, lb = b, ub = ub t\<rparr> \<noteq> None) \<and>
         select_action tb t A acts vals = Some (Inr (val_of t, a)) \<and>
         V t = Some (val_of t) \<and> A t = Some a))"

definition level_inv :: "bool \<Rightarrow> int \<Rightarrow> int \<Rightarrow> int \<Rightarrow> table \<Rightarrow> table \<Rightarrow> tState set \<Rightarrow> bool" where
  "level_inv tb F E e V A P \<longleftrightarrow> tables_inv F E e V A \<and> (\<forall>t\<in>P. cell_ok tb V A t)"

text \<open>\<open>cells_above e F k\<close>: the cells of level \<open>e\<close> in the rows \<open>lb > k\<close>, which a scan of the
  level visits before the row \<open>k\<close>.\<close>

definition cells_above :: "int \<Rightarrow> int \<Rightarrow> int \<Rightarrow> tState set" where
  "cells_above e F k = {t. eggs t = e \<and> k < lb t \<and> lb t < ub t \<and> ub t \<le> F + 1}"

text \<open>\<open>cells_below e F\<close>: the cells that the scans of the levels \<open>1, \<dots>, e - 1\<close> visit.\<close>

definition cells_below :: "int \<Rightarrow> int \<Rightarrow> tState set" where
  "cells_below e F = {t. 1 \<le> eggs t \<and> eggs t < e \<and> 0 \<le> lb t \<and> lb t < ub t \<and> ub t \<le> F + 1}"

subsection \<open>Tables only grow\<close>

text \<open>\<open>tables_grow \<sigma> \<sigma>'\<close>: every entry of the value table of \<open>\<sigma>\<close> is still present in \<open>\<sigma>'\<close>
  with a value that is not larger, and every entry of the action table is still present.\<close>

definition tables_grow :: "scan_state \<Rightarrow> scan_state \<Rightarrow> bool" where
  "tables_grow \<sigma> \<sigma>' \<longleftrightarrow>
     (\<forall>s v. fst \<sigma> s = Some v \<longrightarrow> (\<exists>v'. fst \<sigma>' s = Some v' \<and> v' \<le> v)) \<and>
     (\<forall>s. fst (snd \<sigma>) s \<noteq> None \<longrightarrow> fst (snd \<sigma>') s \<noteq> None)"

subsection \<open>The optimality equation on a table\<close>

text \<open>The probes of a state all of whose successors are stored, and the largest stored value
  among the successors of a probe.\<close>

definition admissible_probes :: "tState \<Rightarrow> table \<Rightarrow> int set" where
  "admissible_probes s V =
     {p. lb s < p \<and> p < ub s \<and> (\<forall>f\<in>{lb s..<ub s}. V (next_state s p f) \<noteq> None)}"

definition worst_case :: "tState \<Rightarrow> table \<Rightarrow> int \<Rightarrow> int" where
  "worst_case s V p = Max ((\<lambda>f. the (V (next_state s p f))) ` {lb s..<ub s})"

subsection \<open>Concrete inputs\<close>

text \<open>The value \<open>single_scan\<close> takes from a list of values: none for an empty list, else the
  entry at \<open>argmin\<close>.\<close>

definition min_value :: "int list \<Rightarrow> int option" where
  "min_value vals = (if vals = [] then None else Some (vals ! argmin vals))"

text \<open>Two concrete value tables for the state \<open>(2, 0, 4)\<close> and the state \<open>(2, 0, 5)\<close>.\<close>

definition table_c6 :: table where
  "table_c6 = [\<lparr>eggs = 1, lb = 0, ub = 1\<rparr> \<mapsto> 0, \<lparr>eggs = 2, lb = 1, ub = 4\<rparr> \<mapsto> 1,
               \<lparr>eggs = 1, lb = 0, ub = 2\<rparr> \<mapsto> 2, \<lparr>eggs = 2, lb = 2, ub = 4\<rparr> \<mapsto> 0,
               \<lparr>eggs = 1, lb = 0, ub = 3\<rparr> \<mapsto> 0, \<lparr>eggs = 2, lb = 3, ub = 4\<rparr> \<mapsto> 0]"

definition table_f4 :: table where
  "table_f4 = [\<lparr>eggs = 1, lb = 0, ub = 1\<rparr> \<mapsto> 0, \<lparr>eggs = 2, lb = 1, ub = 5\<rparr> \<mapsto> 2,
               \<lparr>eggs = 1, lb = 0, ub = 2\<rparr> \<mapsto> 1, \<lparr>eggs = 2, lb = 2, ub = 5\<rparr> \<mapsto> 1,
               \<lparr>eggs = 1, lb = 0, ub = 3\<rparr> \<mapsto> 2, \<lparr>eggs = 2, lb = 3, ub = 5\<rparr> \<mapsto> 1,
               \<lparr>eggs = 1, lb = 0, ub = 4\<rparr> \<mapsto> 3, \<lparr>eggs = 2, lb = 4, ub = 5\<rparr> \<mapsto> 0]"

text \<open>The entries of the built tables at a list of states, and the scan counts.\<close>

definition entries_of ::
  "((table \<times> table) \<times> int list) outcome \<Rightarrow> tState list \<Rightarrow> (int option \<times> int option) list \<times> int list" where
  "entries_of r ss =
     (case r of
        Some (Inr ((V, A), scans)) \<Rightarrow> (map (\<lambda>s. (V s, A s)) ss, scans)
      | _ \<Rightarrow> ([], []))"

section \<open>The state model\<close>

lemma next_state_eq:
  "next_state s p L =
     (if p > L then \<lparr>eggs = eggs s - 1, lb = lb s, ub = min (ub s) p\<rparr>
      else \<lparr>eggs = eggs s, lb = max (lb s) p, ub = ub s\<rparr>)"
  by (simp add: next_state_def eggdrop_def Let_def min_def max_def)

lemma eggdrop_next_state: "snd (eggdrop s p L) = next_state (s::tState) p L"
  by (cases s) (simp add: next_state_def)

lemma eggdrop_breaks: "fst (eggdrop s p L) = (p > L)"
  by (simp add: eggdrop_def Let_def)

lemma next_state_shrinks:
  assumes "0 \<le> lb s" "lb s < p" "p < ub s"
  shows "0 \<le> lb (next_state s p L) \<and> lb (next_state s p L) < ub (next_state s p L) \<and>
         ub (next_state s p L) - lb (next_state s p L) < ub s - lb s"
  using assms by (simp add: next_state_eq)

lemma probe_run_bound:
  "0 \<le> lb s \<Longrightarrow> lb s < ub s \<Longrightarrow> probe_run s ps = Some s' \<Longrightarrow>
     0 \<le> lb s' \<and> lb s' < ub s' \<and> int (length ps) \<le> (ub s - lb s) - (ub s' - lb s')"
proof (induction ps arbitrary: s)
  case Nil
  then show ?case by simp
next
  case (Cons x ps)
  obtain p L where x: "x = (p, L)" by (cases x)
  from Cons.prems x have pr: "lb s < p" "p < ub s"
    and run: "probe_run (next_state s p L) ps = Some s'"
    by (auto split: if_splits)
  from next_state_shrinks[OF Cons.prems(1) pr, of L]
  have n: "0 \<le> lb (next_state s p L)" "lb (next_state s p L) < ub (next_state s p L)"
    "ub (next_state s p L) - lb (next_state s p L) < ub s - lb s" by simp_all
  from Cons.IH[OF n(1) n(2) run] n(3) show ?case by simp
qed

text \<open>The loop of \<open>run_policy_once\<close> cannot run forever on a table whose entries are
  in-range probes: it returns or meets a missing entry within \<open>ub - lb - 1\<close> iterations.\<close>

lemma policy_loop_inrange_total:
  assumes A: "\<forall>t a. A t = Some a \<longrightarrow> lb t < a \<and> a < ub t"
  shows "0 \<le> lb s \<Longrightarrow> lb s < ub s \<Longrightarrow>
         \<exists>r. policy_loop A L s n xs = Some r \<and>
             (\<forall>n' xs'. r = Inr (n', xs') \<longrightarrow> n \<le> n' \<and> n' - n \<le> ub s - lb s - 1)"
proof (induction "nat (ub s - lb s)" arbitrary: s n xs rule: less_induct)
  case less
  show ?case
  proof (cases "isterminal s")
    case True
    with less.prems show ?thesis by (subst policy_loop.simps) simp
  next
    case nt: False
    show ?thesis
    proof (cases "A s")
      case None
      with nt show ?thesis by (subst policy_loop.simps) simp
    next
      case (Some a)
      with A have a: "lb s < a" "a < ub s" by auto
      let ?s' = "next_state s a L"
      from next_state_shrinks[OF less.prems(1) a, of L]
      have n: "0 \<le> lb ?s'" "lb ?s' < ub ?s'" "ub ?s' - lb ?s' < ub s - lb s" by simp_all
      then have "nat (ub ?s' - lb ?s') < nat (ub s - lb s)" by simp
      from less.hyps[OF this n(1) n(2), of "n + 1" "xs @ [a]"]
      obtain r where r: "policy_loop A L ?s' (n + 1) (xs @ [a]) = Some r"
        "\<forall>n' xs'. r = Inr (n', xs') \<longrightarrow> n + 1 \<le> n' \<and> n' - (n + 1) \<le> ub ?s' - lb ?s' - 1"
        by blast
      have "policy_loop A L s n xs = Some r"
        using nt Some r(1) by (subst policy_loop.simps) (simp add: eggdrop_next_state)
      moreover have "\<forall>n' xs'. r = Inr (n', xs') \<longrightarrow> n \<le> n' \<and> n' - n \<le> ub s - lb s - 1"
        using r(2) n(3) by fastforce
      ultimately show ?thesis by blast
    qed
  qed
qed

section \<open>The classical recurrence and the optimal number of drops\<close>

lemma reachable_0 [simp]: "reachable d 0 = 0"
  by (cases d) simp_all

lemma reachable_Suc_d: "reachable d e \<le> reachable (Suc d) e"
proof (induction d arbitrary: e)
  case 0
  then show ?case by simp
next
  case (Suc d)
  show ?case
  proof (cases e)
    case 0
    then show ?thesis by simp
  next
    case (Suc e')
    with Suc.IH[of e'] Suc.IH[of "Suc e'"] show ?thesis by simp
  qed
qed

lemma reachable_mono_d: "d \<le> d' \<Longrightarrow> reachable d e \<le> reachable d' e"
  by (induction d' ) (auto simp: le_Suc_eq intro: order_trans[OF _ reachable_Suc_d])

lemma reachable_Suc_e: "reachable d e \<le> reachable d (Suc e)"
proof (induction d arbitrary: e)
  case 0
  then show ?case by simp
next
  case (Suc d)
  show ?case
  proof (cases e)
    case 0
    then show ?thesis by simp
  next
    case (Suc e')
    with Suc.IH[of e'] Suc.IH[of "Suc e'"] show ?thesis by simp
  qed
qed

lemma reachable_mono_e: "e \<le> e' \<Longrightarrow> reachable d e \<le> reachable d e'"
  by (induction e') (auto simp: le_Suc_eq intro: order_trans[OF _ reachable_Suc_e])

lemma reachable_one: "reachable d (Suc 0) = d"
  by (induction d) simp_all

lemma reachable_ge: "0 < e \<Longrightarrow> d \<le> reachable d e"
  using reachable_mono_e[of "Suc 0" e d] by (simp add: reachable_one)

lemma reachable_step:
  "0 < e \<Longrightarrow> reachable (Suc d) e = 1 + reachable d (e - 1) + reachable d e"
  by (cases e) simp_all

lemma mindrops_le_iff:
  assumes "0 < e"
  shows "mindrops e n \<le> d \<longleftrightarrow> n \<le> reachable d e + 1"
proof
  have ex: "n \<le> reachable n e + 1" using reachable_ge[OF assms, of n] by simp
  have least: "n \<le> reachable (mindrops e n) e + 1"
    unfolding mindrops_def by (rule LeastI[of "\<lambda>d. n \<le> reachable d e + 1", OF ex])
  assume "mindrops e n \<le> d"
  from reachable_mono_d[OF this, of e] least show "n \<le> reachable d e + 1" by simp
next
  assume "n \<le> reachable d e + 1"
  then show "mindrops e n \<le> d" unfolding mindrops_def by (rule Least_le)
qed

lemma mindrops_small: "n \<le> 1 \<Longrightarrow> mindrops e n = 0"
  unfolding mindrops_def by (rule Least_eq_0) simp

lemma mindrops_pos: "0 < e \<Longrightarrow> 2 \<le> n \<Longrightarrow> 0 < mindrops e n"
  using mindrops_le_iff[of e n 0] by (cases "mindrops e n") auto

lemma mindrops_mono_n: "0 < e \<Longrightarrow> n \<le> n' \<Longrightarrow> mindrops e n \<le> mindrops e n'"
  using mindrops_le_iff[of e n "mindrops e n'"] mindrops_le_iff[of e n' "mindrops e n'"] by simp

lemma mindrops_mono_e: "0 < e \<Longrightarrow> e \<le> e' \<Longrightarrow> mindrops e' n \<le> mindrops e n"
  using mindrops_le_iff[of e' n "mindrops e n"] mindrops_le_iff[of e n "mindrops e n"]
    reachable_mono_e[of e e' "mindrops e n"] by simp

lemma mindrops_one_egg: "0 < n \<Longrightarrow> mindrops (Suc 0) n = n - 1"
proof (rule antisym)
  show "mindrops (Suc 0) n \<le> n - 1"
    by (simp add: mindrops_le_iff reachable_one)
  assume "0 < n"
  have "n \<le> reachable (mindrops (Suc 0) n) (Suc 0) + 1"
    using mindrops_le_iff[of "Suc 0" n "mindrops (Suc 0) n"] by simp
  then show "n - 1 \<le> mindrops (Suc 0) n" by (simp add: reachable_one)
qed

text \<open>The optimality equation: an inequality for every admissible split, and a split
  that attains it.\<close>

lemma prev_level_le:
  assumes "0 < e" "0 < k" "e = 1 \<longrightarrow> k = 1" "mindrops (e - 1) k \<le> d"
  shows "k \<le> reachable d (e - 1) + 1"
proof (cases "e = 1")
  case True
  with assms show ?thesis by simp
next
  case False
  with assms have "0 < e - 1" by simp
  from mindrops_le_iff[OF this, of k d] assms(4) show ?thesis by simp
qed

lemma mindrops_bellman_le:
  assumes e: "0 < e" and k: "0 < k" "k < n" and one: "e = 1 \<longrightarrow> k = 1"
  shows "mindrops e n \<le> 1 + max (mindrops (e - 1) k) (mindrops e (n - k))"
proof -
  define d where "d = max (mindrops (e - 1) k) (mindrops e (n - k))"
  have a: "k \<le> reachable d (e - 1) + 1"
    by (rule prev_level_le[OF e k(1) one]) (simp add: d_def)
  have "mindrops e (n - k) \<le> d" by (simp add: d_def)
  then have b: "n - k \<le> reachable d e + 1" by (simp add: mindrops_le_iff[OF e])
  have "n \<le> reachable (Suc d) e + 1"
    using a b k by (simp add: reachable_step[OF e])
  then have "mindrops e n \<le> Suc d" by (simp add: mindrops_le_iff[OF e])
  then show ?thesis by (simp add: d_def)
qed

lemma mindrops_bellman_ex:
  assumes e: "0 < e" and n: "2 \<le> n"
  shows "\<exists>k. 0 < k \<and> k < n \<and> (e = 1 \<longrightarrow> k = 1) \<and>
             mindrops e n = 1 + max (mindrops (e - 1) k) (mindrops e (n - k))"
proof -
  from mindrops_pos[OF e n] obtain d where d: "mindrops e n = Suc d"
    by (cases "mindrops e n") auto
  then have "n \<le> reachable (Suc d) e + 1"
    using mindrops_le_iff[OF e, of n "Suc d"] by simp
  then have bound: "n \<le> reachable d (e - 1) + reachable d e + 2"
    by (simp add: reachable_step[OF e])
  define k where "k = min (n - 1) (reachable d (e - 1) + 1)"
  have k1: "0 < k" "k < n" using n by (simp_all add: k_def)
  have one: "e = 1 \<longrightarrow> k = 1" using n by (auto simp: k_def)
  have p: "mindrops (e - 1) k \<le> d"
  proof (cases "e = 1")
    case True
    with one show ?thesis by (simp add: mindrops_small)
  next
    case False
    with e have "0 < e - 1" by simp
    from mindrops_le_iff[OF this, of k d] show ?thesis by (simp add: k_def)
  qed
  have "n - k \<le> reachable d e + 1" using bound n unfolding k_def min_def by arith
  then have q: "mindrops e (n - k) \<le> d" by (simp add: mindrops_le_iff[OF e])
  from mindrops_bellman_le[OF e k1 one] p q d
  have "mindrops e n = 1 + max (mindrops (e - 1) k) (mindrops e (n - k))" by simp
  with k1 one show ?thesis by blast
qed

section \<open>Reading the value of an action\<close>

declare calc_loop.simps [simp del] find_loop.simps [simp del]
  classic_e_loop.simps [simp del] classic_d_loop.simps [simp del]

lemma calc_loop_upper:
  assumes a: "lb s < a"
  shows "a \<le> f \<Longrightarrow> calc_loop s a V f m =
     (if f < ub s then
        (case V \<lparr>eggs = eggs s, lb = a, ub = ub s\<rparr> of
           None \<Rightarrow> (False, m)
         | Some v \<Rightarrow> (True, max m (1 + v)))
      else (True, m))"
proof (induction "nat (ub s - f)" arbitrary: f m rule: less_induct)
  case less
  show ?case
  proof (cases "f < ub s")
    case False
    then show ?thesis by (subst calc_loop.simps) simp
  next
    case True
    have ns: "next_state s a f = \<lparr>eggs = eggs s, lb = a, ub = ub s\<rparr>"
      using less.prems a by (simp add: next_state_eq)
    show ?thesis
    proof (cases "V \<lparr>eggs = eggs s, lb = a, ub = ub s\<rparr>")
      case None
      with True ns show ?thesis by (subst calc_loop.simps) simp
    next
      case (Some v)
      have "nat (ub s - (f + 1)) < nat (ub s - f)" using True by simp
      from less.hyps[OF this, of "max m (1 + v)"] less.prems
      have ih: "calc_loop s a V (f + 1) (max m (1 + v)) = (True, max m (1 + v))"
        using Some by (simp split: if_splits)
      have "calc_loop s a V f m = calc_loop s a V (f + 1) (max m (1 + v))"
        using True ns Some by (subst calc_loop.simps) (simp add: cost_def max_def Let_def)
      with ih True Some show ?thesis by simp
    qed
  qed
qed

lemma calc_loop_lower:
  assumes a: "a < ub s"
  shows "f < a \<Longrightarrow> calc_loop s a V f m =
     (case V \<lparr>eggs = eggs s - 1, lb = lb s, ub = a\<rparr> of
        None \<Rightarrow> (False, m)
      | Some v \<Rightarrow> calc_loop s a V a (max m (1 + v)))"
proof (induction "nat (a - f)" arbitrary: f m rule: less_induct)
  case less
  have f: "f < ub s" using less.prems a by simp
  have ns: "next_state s a f = \<lparr>eggs = eggs s - 1, lb = lb s, ub = a\<rparr>"
    using less.prems a by (simp add: next_state_eq)
  show ?case
  proof (cases "V \<lparr>eggs = eggs s - 1, lb = lb s, ub = a\<rparr>")
    case None
    with f ns show ?thesis by (subst calc_loop.simps) simp
  next
    case (Some v)
    have step: "calc_loop s a V f m = calc_loop s a V (f + 1) (max m (1 + v))"
      using f ns Some by (subst calc_loop.simps) (simp add: cost_def max_def Let_def)
    show ?thesis
    proof (cases "f + 1 < a")
      case True
      then have "nat (a - (f + 1)) < nat (a - f)" by simp
      from less.hyps[OF this True, of "max m (1 + v)"] step Some show ?thesis by simp
    next
      case False
      with less.prems have "f + 1 = a" by simp
      with step Some show ?thesis by simp
    qed
  qed
qed

lemma calc_maximum_value_eq:
  assumes "lb s < a" "a < ub s"
  shows "calc_maximum_value s a V =
     (case V \<lparr>eggs = eggs s - 1, lb = lb s, ub = a\<rparr> of
        None \<Rightarrow> (False, - 1)
      | Some v1 \<Rightarrow>
          (case V \<lparr>eggs = eggs s, lb = a, ub = ub s\<rparr> of
             None \<Rightarrow> (False, max (- 1) (1 + v1))
           | Some v2 \<Rightarrow> (True, max (max (- 1) (1 + v1)) (1 + v2))))"
  unfolding calc_maximum_value_def
  by (simp add: calc_loop_lower[OF assms(2) assms(1)] calc_loop_upper[OF assms(1)] assms
           split: option.splits)

section \<open>The list of admissible actions\<close>

lemma candidates_step:
  "a < ub s \<Longrightarrow> candidates s V a =
     (if cand s V a then a # candidates s V (a + 1) else candidates s V (a + 1))"
  unfolding candidates_def by (subst upto_rec1) simp_all

lemma candidates_done: "\<not> a < ub s \<Longrightarrow> candidates s V a = []"
  unfolding candidates_def by simp

lemma find_loop_full:
  "find_loop s V False a acts vals =
     (acts @ candidates s V a, vals @ map (cval s V) (candidates s V a))"
proof (induction "nat (ub s - a)" arbitrary: a acts vals rule: less_induct)
  case less
  show ?case
  proof (cases "a < ub s")
    case False
    then show ?thesis by (subst find_loop.simps) (simp add: candidates_done)
  next
    case True
    then have m: "nat (ub s - (a + 1)) < nat (ub s - a)" by simp
    obtain ok themax where c: "calc_maximum_value s a V = (ok, themax)"
      by (cases "calc_maximum_value s a V")
    show ?thesis
    proof (cases "cand s V a")
      case False
      with c have "\<not> ok \<or> themax = - 1" by (simp add: cand_def)
      then have "find_loop s V False a acts vals = find_loop s V False (a + 1) acts vals"
        using True c by (subst find_loop.simps) auto
      with less.hyps[OF m] False True show ?thesis by (simp add: candidates_step)
    next
      case cn: True
      with c have "\<not> (\<not> ok \<or> themax = - 1)" by (simp add: cand_def)
      then have "find_loop s V False a acts vals =
                 find_loop s V False (a + 1) (acts @ [a]) (vals @ [themax])"
        using True c by (subst find_loop.simps) (simp add: Let_def)
      with less.hyps[OF m] cn True c show ?thesis by (simp add: candidates_step cval_def)
    qed
  qed
qed

lemma find_loop_cut:
  "length acts = length vals \<Longrightarrow>
   find_loop s V True a acts vals =
     (acts @ take (length (cut_vals vals (map (cval s V) (candidates s V a)))) (candidates s V a),
      vals @ cut_vals vals (map (cval s V) (candidates s V a)))"
proof (induction "nat (ub s - a)" arbitrary: a acts vals rule: less_induct)
  case less
  show ?case
  proof (cases "a < ub s")
    case False
    then show ?thesis by (subst find_loop.simps) (simp add: candidates_done cut_vals_def)
  next
    case True
    then have m: "nat (ub s - (a + 1)) < nat (ub s - a)" by simp
    obtain ok themax where c: "calc_maximum_value s a V = (ok, themax)"
      by (cases "calc_maximum_value s a V")
    show ?thesis
    proof (cases "cand s V a")
      case False
      with c have "\<not> ok \<or> themax = - 1" by (simp add: cand_def)
      then have "find_loop s V True a acts vals = find_loop s V True (a + 1) acts vals"
        using True c by (subst find_loop.simps) auto
      with less.hyps[OF m less.prems] False True show ?thesis by (simp add: candidates_step)
    next
      case cn: True
      with c have adm: "\<not> (\<not> ok \<or> themax = - 1)" by (simp add: cand_def)
      have cv: "cval s V a = themax" using c by (simp add: cval_def)
      let ?rest = "map (cval s V) (candidates s V (a + 1))"
      have cs: "candidates s V a = a # candidates s V (a + 1)"
        using cn True by (simp add: candidates_step)
      show ?thesis
      proof (cases "vals \<noteq> [] \<and> themax > last vals")
        case brk: True
        with less.prems have len: "length (acts @ [a]) \<ge> 2" by (cases vals) auto
        have idx: "(vals @ [themax]) ! (length (vals @ [themax]) - 1) = themax"
          "(vals @ [themax]) ! (length (vals @ [themax]) - 2) = last vals"
          using brk by (simp_all add: nth_append last_conv_nth)
        have "find_loop s V True a acts vals = (acts @ [a], vals @ [themax])"
          using True c adm len idx brk by (subst find_loop.simps) (simp add: Let_def)
        moreover have "cut_vals vals (map (cval s V) (candidates s V a)) = [themax]"
          using brk cs cv by (simp add: cut_vals_def)
        ultimately show ?thesis using cs by simp
      next
        case nobrk: False
        have "\<not> (length (acts @ [a]) \<ge> 2 \<and>
                 (vals @ [themax]) ! (length (vals @ [themax]) - 1)
                   > (vals @ [themax]) ! (length (vals @ [themax]) - 2))"
        proof (cases "vals = []")
          case True
          with less.prems show ?thesis by simp
        next
          case False
          with nobrk have "\<not> themax > last vals" by simp
          with False show ?thesis by (simp add: nth_append last_conv_nth)
        qed
        then have "find_loop s V True a acts vals =
                   find_loop s V True (a + 1) (acts @ [a]) (vals @ [themax])"
          using True c adm by (subst find_loop.simps) (auto simp: Let_def)
        moreover have "length (acts @ [a]) = length (vals @ [themax])"
          using less.prems by simp
        note less.hyps[OF m this]
        moreover have "cut_vals vals (map (cval s V) (candidates s V a)) =
                       themax # cut_vals (vals @ [themax]) ?rest"
          using nobrk cs cv by (auto simp: cut_vals_def)
        ultimately show ?thesis using cs by simp
      qed
    qed
  qed
qed

lemma cut_incr_prefix: "cut_incr p ys = take (length (cut_incr p ys)) ys"
  by (induction ys arbitrary: p) auto

lemma cut_vals_prefix: "cut_vals [] ys = take (length (cut_vals [] ys)) ys"
  using cut_incr_prefix by (cases ys) (auto simp: cut_vals_def)

lemma cut_vals_empty: "cut_vals [] ys = [] \<longleftrightarrow> ys = []"
  by (cases ys) (auto simp: cut_vals_def)

lemma cut_incr_min:
  "valley (p # ys) \<Longrightarrow> Min (set (p # cut_incr p ys)) = Min (set (p # ys))"
proof (induction ys arbitrary: p)
  case Nil
  then show ?case by simp
next
  case (Cons y ys)
  show ?case
  proof (cases "y > p")
    case True
    with Cons.prems have "sorted (y # ys)" by simp
    then have "\<forall>z\<in>set ys. y \<le> z" by simp
    with True have "Min (set (p # y # ys)) = p"
      by (intro Min_eqI) auto
    moreover have "Min (set (p # cut_incr p (y # ys))) = p"
      using True by (intro Min_eqI) auto
    ultimately show ?thesis by simp
  next
    case False
    with Cons.prems have "valley (y # ys)" by simp
    from Cons.IH[OF this] have ih: "Min (set (y # cut_incr y ys)) = Min (set (y # ys))" .
    have "Min (set (p # y # cut_incr y ys)) = min p (Min (set (y # cut_incr y ys)))"
      by simp
    also have "\<dots> = min p (Min (set (y # ys)))" using ih by simp
    also have "\<dots> = Min (set (p # y # ys))" by simp
    finally show ?thesis using False by simp
  qed
qed

lemma cut_vals_min:
  "valley ys \<Longrightarrow> ys \<noteq> [] \<Longrightarrow> Min (set (cut_vals [] ys)) = Min (set ys)"
  using cut_incr_min by (cases ys) (auto simp: cut_vals_def)

lemma find_admissible_full:
  "find_admissible_actions s V [] [] False =
     (candidates s V (lb s + 1), map (cval s V) (candidates s V (lb s + 1)))"
  by (simp add: find_admissible_actions_def find_loop_full)

lemma find_admissible_cut:
  "find_admissible_actions s V [] [] True =
     (take (length (cut_vals [] (map (cval s V) (candidates s V (lb s + 1)))))
           (candidates s V (lb s + 1)),
      cut_vals [] (map (cval s V) (candidates s V (lb s + 1))))"
  by (simp add: find_admissible_actions_def find_loop_cut)

text \<open>\<open>argmin\<close> returns an index of a least element.\<close>

lemma argmin_from_spec:
  "length pre = i \<Longrightarrow> besti < i \<Longrightarrow> pre ! besti = best \<Longrightarrow> Min (set pre) = best \<Longrightarrow>
   argmin_from best besti i xs < length (pre @ xs) \<and>
   (pre @ xs) ! argmin_from best besti i xs = Min (set (pre @ xs))"
proof (induction xs arbitrary: pre i besti best)
  case Nil
  then show ?case by simp
next
  case (Cons x xs)
  from Cons.prems have ne: "pre \<noteq> []" by auto
  show ?case
  proof (cases "x < best")
    case True
    have "Min (set (pre @ [x])) = x"
      using True Cons.prems(4) ne by (simp add: min_def)
    moreover have "(pre @ [x]) ! i = x" using Cons.prems(1) by auto
    moreover have "length (pre @ [x]) = i + 1" "i < i + 1" using Cons.prems(1) by auto
    ultimately have "argmin_from x i (i + 1) xs < length ((pre @ [x]) @ xs) \<and>
      ((pre @ [x]) @ xs) ! argmin_from x i (i + 1) xs = Min (set ((pre @ [x]) @ xs))"
      by (intro Cons.IH)
    with True show ?thesis by simp
  next
    case False
    have "Min (set (pre @ [x])) = best"
      using False Cons.prems(4) ne by (simp add: min_def)
    moreover have "(pre @ [x]) ! besti = best" using Cons.prems by (simp add: nth_append)
    moreover have "length (pre @ [x]) = i + 1" "besti < i + 1" using Cons.prems by auto
    ultimately have "argmin_from best besti (i + 1) xs < length ((pre @ [x]) @ xs) \<and>
      ((pre @ [x]) @ xs) ! argmin_from best besti (i + 1) xs = Min (set ((pre @ [x]) @ xs))"
      by (intro Cons.IH)
    with False show ?thesis by simp
  qed
qed

lemma argmin_spec:
  assumes "v \<noteq> []"
  shows "argmin v < length v \<and> v ! argmin v = Min (set v)"
proof -
  from assms obtain x xs where v: "v = x # xs" by (cases v) auto
  from argmin_from_spec[of "[x]" 1 0 x xs] show ?thesis by (simp add: v argmin_def)
qed

lemma ties_of_map:
  "ties_of xs (map g xs) v = filter (\<lambda>a. g a = v) xs"
  unfolding ties_of_def by (induction xs) auto

lemma ties_of_Min:
  assumes "xs \<noteq> []"
  shows "ties_of xs (map g xs) (Min (set (map g xs))) \<noteq> []"
proof -
  have "Min (set (map g xs)) \<in> set (map g xs)" using assms by (intro Min_in) auto
  then obtain a where "a \<in> set xs" "g a = Min (set (map g xs))" by auto
  then have "a \<in> set (filter (\<lambda>a. g a = Min (set (map g xs))) xs)" by simp
  then show ?thesis unfolding ties_of_map by (metis empty_iff empty_set)
qed

section \<open>Running a policy on well-formed tables\<close>

lemma inv_present:
  assumes "tables_inv F E e V A" "V s \<noteq> None"
  shows "wf_state F E s" "V s = Some (val_of s)"
  using assms unfolding tables_inv_def by auto

lemma inv_action:
  assumes "tables_inv F E e V A" "V s \<noteq> None" "\<not> isterminal s"
  obtains a where "A s = Some a" "lb s < a" "a < ub s"
    "V \<lparr>eggs = eggs s - 1, lb = lb s, ub = a\<rparr> \<noteq> None"
    "V \<lparr>eggs = eggs s, lb = a, ub = ub s\<rparr> \<noteq> None"
    "val_of s = 1 + max (val_of \<lparr>eggs = eggs s - 1, lb = lb s, ub = a\<rparr>)
                        (val_of \<lparr>eggs = eggs s, lb = a, ub = ub s\<rparr>)"
proof -
  from inv_present(1)[OF assms(1,2)] assms(3) have nt: "ub s \<noteq> lb s + 1"
    by (auto simp: wf_state_def isterminal_def)
  with assms(1,2) obtain a where a: "A s = Some a"
    unfolding tables_inv_def by (meson not_Some_eq)
  with assms(1) have "lb s < a \<and> a < ub s \<and>
         V \<lparr>eggs = eggs s - 1, lb = lb s, ub = a\<rparr> \<noteq> None \<and>
         V \<lparr>eggs = eggs s, lb = a, ub = ub s\<rparr> \<noteq> None \<and>
         val_of s = 1 + max (val_of \<lparr>eggs = eggs s - 1, lb = lb s, ub = a\<rparr>)
                            (val_of \<lparr>eggs = eggs s, lb = a, ub = ub s\<rparr>)"
    unfolding tables_inv_def by blast
  with a that show thesis by blast
qed

lemma next_state_cases:
  assumes "lb s < a" "a < ub s"
  shows "next_state s a L =
           (if a > L then \<lparr>eggs = eggs s - 1, lb = lb s, ub = a\<rparr>
            else \<lparr>eggs = eggs s, lb = a, ub = ub s\<rparr>)"
  using assms by (simp add: next_state_eq)

lemma val_of_terminal: "ub s = lb s + 1 \<Longrightarrow> val_of s = 0"
  by (simp add: val_of_def mindrops_small)

lemma policy_loop_returns:
  assumes inv: "tables_inv F E e V A"
  shows "V s \<noteq> None \<Longrightarrow>
         \<exists>k tr. policy_loop A L s n xs = Some (Inr (n + k, xs @ tr)) \<and> 0 \<le> k \<and> k \<le> val_of s \<and>
                int (length tr) = k \<and> (\<forall>a\<in>set tr. lb s < a \<and> a < ub s)"
proof (induction "nat (ub s - lb s)" arbitrary: s n xs rule: less_induct)
  case less
  show ?case
  proof (cases "isterminal s")
    case True
    then have "policy_loop A L s n xs = Some (Inr (n + 0, xs @ []))"
      by (subst policy_loop.simps) simp
    then show ?thesis by (intro exI[of _ 0] exI[of _ "[]"]) (simp add: val_of_def)
  next
    case nt: False
    from inv_action[OF inv less.prems nt] obtain a where a: "A s = Some a" "lb s < a" "a < ub s"
      "V \<lparr>eggs = eggs s - 1, lb = lb s, ub = a\<rparr> \<noteq> None"
      "V \<lparr>eggs = eggs s, lb = a, ub = ub s\<rparr> \<noteq> None"
      "val_of s = 1 + max (val_of \<lparr>eggs = eggs s - 1, lb = lb s, ub = a\<rparr>)
                        (val_of \<lparr>eggs = eggs s, lb = a, ub = ub s\<rparr>)" .
    let ?t = "next_state s a L"
    have t: "V ?t \<noteq> None" "nat (ub ?t - lb ?t) < nat (ub s - lb s)" "val_of ?t + 1 \<le> val_of s"
      "lb s \<le> lb ?t" "ub ?t \<le> ub s"
      using a by (auto simp: next_state_cases)
    from less.hyps[OF t(2) t(1), of "n + 1" "xs @ [a]"] obtain k tr where
      r: "policy_loop A L ?t (n + 1) (xs @ [a]) = Some (Inr (n + 1 + k, (xs @ [a]) @ tr))"
         "0 \<le> k" "k \<le> val_of ?t" "int (length tr) = k" "\<forall>b\<in>set tr. lb ?t < b \<and> b < ub ?t"
      by blast
    have "policy_loop A L s n xs = Some (Inr (n + (k + 1), xs @ (a # tr)))"
      using nt a(1) r(1) by (subst policy_loop.simps) (simp add: eggdrop_next_state)
    moreover have "\<forall>b\<in>set (a # tr). lb s < b \<and> b < ub s"
      using r(5) t(4,5) a(2,3) by fastforce
    moreover have "0 \<le> k + 1" "k + 1 \<le> val_of s" "int (length (a # tr)) = k + 1"
      using r(2,3,4) t(3) by simp_all
    ultimately show ?thesis by blast
  qed
qed

lemma policy_loop_attains:
  assumes inv: "tables_inv F E e V A"
  shows "V s \<noteq> None \<Longrightarrow>
         \<exists>L tr. lb s \<le> L \<and> L < ub s \<and>
                policy_loop A L s n xs = Some (Inr (n + val_of s, xs @ tr))"
proof (induction "nat (ub s - lb s)" arbitrary: s n xs rule: less_induct)
  case less
  from inv_present(1)[OF inv less.prems] have wf: "wf_state F E s" .
  show ?case
  proof (cases "isterminal s")
    case True
    then have "policy_loop A (lb s) s n xs = Some (Inr (n + val_of s, xs @ []))"
      by (subst policy_loop.simps) (simp add: val_of_terminal isterminal_def)
    with wf show ?thesis unfolding wf_state_def by (intro exI[of _ "lb s"]) auto
  next
    case nt: False
    from inv_action[OF inv less.prems nt] obtain a where a: "A s = Some a" "lb s < a" "a < ub s"
      "V \<lparr>eggs = eggs s - 1, lb = lb s, ub = a\<rparr> \<noteq> None"
      "V \<lparr>eggs = eggs s, lb = a, ub = ub s\<rparr> \<noteq> None"
      "val_of s = 1 + max (val_of \<lparr>eggs = eggs s - 1, lb = lb s, ub = a\<rparr>)
                        (val_of \<lparr>eggs = eggs s, lb = a, ub = ub s\<rparr>)" .
    let ?s1 = "\<lparr>eggs = eggs s - 1, lb = lb s, ub = a\<rparr>"
    let ?s2 = "\<lparr>eggs = eggs s, lb = a, ub = ub s\<rparr>"
    show ?thesis
    proof (cases "val_of ?s2 \<le> val_of ?s1")
      case True
      have "nat (ub ?s1 - lb ?s1) < nat (ub s - lb s)" using a by simp
      from less.hyps[OF this a(4), of "n + 1" "xs @ [a]"] obtain L tr where
        r: "lb s \<le> L" "L < a"
           "policy_loop A L ?s1 (n + 1) (xs @ [a]) = Some (Inr (n + 1 + val_of ?s1, (xs @ [a]) @ tr))"
        by auto
      have "next_state s a L = ?s1" using a r(2) by (simp add: next_state_cases)
      then have "policy_loop A L s n xs = Some (Inr (n + val_of s, xs @ (a # tr)))"
        using nt a(1) r(3) True a(6) by (subst policy_loop.simps) (simp add: eggdrop_next_state)
      with r(1,2) a(3) show ?thesis by (intro exI[of _ L]) auto
    next
      case False
      have "nat (ub ?s2 - lb ?s2) < nat (ub s - lb s)" using a by simp
      from less.hyps[OF this a(5), of "n + 1" "xs @ [a]"] obtain L tr where
        r: "a \<le> L" "L < ub s"
           "policy_loop A L ?s2 (n + 1) (xs @ [a]) = Some (Inr (n + 1 + val_of ?s2, (xs @ [a]) @ tr))"
        by auto
      have "next_state s a L = ?s2" using a r(1) by (simp add: next_state_cases)
      then have "policy_loop A L s n xs = Some (Inr (n + val_of s, xs @ (a # tr)))"
        using nt a(1) r(3) False a(6) by (subst policy_loop.simps) (simp add: eggdrop_next_state)
      with r(1,2) a(2) show ?thesis by (intro exI[of _ L]) auto
    qed
  qed
qed

lemma past_next_state:
  "past s0 t \<Longrightarrow> past s0 (next_state t a L)"
  by (auto simp: past_def next_state_eq)

lemma past_neq: "past s0 t \<Longrightarrow> t \<noteq> s0"
  by (auto simp: past_def)

lemma policy_loop_frame:
  assumes inv: "tables_inv F E e V A" and same: "\<forall>t. t \<noteq> s0 \<longrightarrow> A' t = A t"
  shows "V t \<noteq> None \<Longrightarrow> past s0 t \<Longrightarrow> policy_loop A' L t n xs = policy_loop A L t n xs"
proof (induction "nat (ub t - lb t)" arbitrary: t n xs rule: less_induct)
  case less
  show ?case
  proof (cases "isterminal t")
    case True
    then show ?thesis by (simp add: policy_loop.simps)
  next
    case nt: False
    from inv_action[OF inv less.prems(1) nt] obtain a where a: "A t = Some a" "lb t < a" "a < ub t"
      "V \<lparr>eggs = eggs t - 1, lb = lb t, ub = a\<rparr> \<noteq> None"
      "V \<lparr>eggs = eggs t, lb = a, ub = ub t\<rparr> \<noteq> None"
      "val_of t = 1 + max (val_of \<lparr>eggs = eggs t - 1, lb = lb t, ub = a\<rparr>)
                        (val_of \<lparr>eggs = eggs t, lb = a, ub = ub t\<rparr>)" .
    let ?t = "next_state t a L"
    have t: "V ?t \<noteq> None" "nat (ub ?t - lb ?t) < nat (ub t - lb t)"
      using a by (auto simp: next_state_cases)
    have a': "A' t = Some a" using same past_neq[OF less.prems(2)] a(1) by simp
    from less.hyps[OF t(2) t(1) past_next_state[OF less.prems(2)], of "n + 1" "xs @ [a]"]
    have "policy_loop A' L ?t (n + 1) (xs @ [a]) = policy_loop A L ?t (n + 1) (xs @ [a])" .
    then show ?thesis
      using nt a(1) a'
      by (subst policy_loop.simps, subst (2) policy_loop.simps) (simp add: eggdrop_next_state)
  qed
qed

section \<open>Loops over ranges; the optimality equation on states\<close>

lemma foldM_returns:
  "(\<And>x \<sigma>. x \<in> set xs \<Longrightarrow> \<exists>\<sigma>'. f x \<sigma> = Some (Inr \<sigma>')) \<Longrightarrow> \<exists>\<sigma>'. foldM f xs \<sigma> = Some (Inr \<sigma>')"
proof (induction xs arbitrary: \<sigma>)
  case Nil
  then show ?case by simp
next
  case (Cons x xs)
  from Cons.prems[of x \<sigma>] obtain \<sigma>1 where "f x \<sigma> = Some (Inr \<sigma>1)" by auto
  moreover from Cons.IH[of \<sigma>1] Cons.prems obtain \<sigma>2 where "foldM f xs \<sigma>1 = Some (Inr \<sigma>2)"
    by auto
  ultimately show ?case by simp
qed

lemma foldM_same:
  "(\<And>x \<sigma>. x \<in> set xs \<Longrightarrow> f x \<sigma> = g x \<sigma>) \<Longrightarrow> foldM f xs \<sigma> = foldM g xs \<sigma>"
  by (induction xs arbitrary: \<sigma>) (auto split: option.splits sum.splits)

lemma foldM_unchanged:
  "(\<And>x. x \<in> set xs \<Longrightarrow> f x \<sigma> = Some (Inr \<sigma>)) \<Longrightarrow> foldM f xs \<sigma> = Some (Inr \<sigma>)"
  by (induction xs) auto

lemma mapM_returns:
  "(\<And>x. x \<in> set xs \<Longrightarrow> \<exists>y. f x = Some (Inr y)) \<Longrightarrow>
   \<exists>ys. mapM f xs = Some (Inr ys) \<and> length ys = length xs"
proof (induction xs)
  case Nil
  then show ?case by simp
next
  case (Cons x xs)
  from Cons.prems[of x] obtain y where "f x = Some (Inr y)" by auto
  moreover from Cons.IH Cons.prems obtain ys where "mapM f xs = Some (Inr ys)" "length ys = length xs"
    by auto
  ultimately show ?case by simp
qed

lemma mapM_same:
  "(\<And>x. x \<in> set xs \<Longrightarrow> f x = g x) \<Longrightarrow> mapM f xs = mapM g xs"
  by (induction xs) (auto split: option.splits sum.splits)

text \<open>The optimality equation for \<open>val_of\<close>.\<close>

lemma val_of_split:
  assumes "1 \<le> eggs s" "lb s < a" "a < ub s"
  shows "val_of \<lparr>eggs = eggs s - 1, lb = lb s, ub = a\<rparr> =
           int (mindrops (nat (eggs s) - 1) (nat (a - lb s)))"
    and "val_of \<lparr>eggs = eggs s, lb = a, ub = ub s\<rparr> =
           int (mindrops (nat (eggs s)) (nat (ub s - lb s) - nat (a - lb s)))"
proof -
  have "nat (eggs s - 1) = nat (eggs s) - 1" using assms by simp
  then show "val_of \<lparr>eggs = eggs s - 1, lb = lb s, ub = a\<rparr> =
           int (mindrops (nat (eggs s) - 1) (nat (a - lb s)))" by (simp add: val_of_def)
  have "nat (ub s - a) = nat (ub s - lb s) - nat (a - lb s)" using assms by simp
  then show "val_of \<lparr>eggs = eggs s, lb = a, ub = ub s\<rparr> =
           int (mindrops (nat (eggs s)) (nat (ub s - lb s) - nat (a - lb s)))"
    by (simp add: val_of_def)
qed

lemma val_of_bellman_le:
  assumes "1 \<le> eggs s" "lb s < a" "a < ub s" "eggs s = 1 \<longrightarrow> a = lb s + 1"
  shows "val_of s \<le> 1 + max (val_of \<lparr>eggs = eggs s - 1, lb = lb s, ub = a\<rparr>)
                            (val_of \<lparr>eggs = eggs s, lb = a, ub = ub s\<rparr>)"
proof -
  have "mindrops (nat (eggs s)) (nat (ub s - lb s))
        \<le> 1 + max (mindrops (nat (eggs s) - 1) (nat (a - lb s)))
                   (mindrops (nat (eggs s)) (nat (ub s - lb s) - nat (a - lb s)))"
    using assms by (intro mindrops_bellman_le) auto
  then have "int (mindrops (nat (eggs s)) (nat (ub s - lb s)))
        \<le> int (1 + max (mindrops (nat (eggs s) - 1) (nat (a - lb s)))
                   (mindrops (nat (eggs s)) (nat (ub s - lb s) - nat (a - lb s))))"
    by (simp only: of_nat_le_iff)
  then show ?thesis
    unfolding val_of_split[OF assms(1-3)] by (simp add: val_of_def of_nat_max)
qed

lemma val_of_bellman_ex:
  assumes "1 \<le> eggs s" "lb s + 2 \<le> ub s"
  shows "\<exists>a. lb s < a \<and> a < ub s \<and> (eggs s = 1 \<longrightarrow> a = lb s + 1) \<and>
             val_of s = 1 + max (val_of \<lparr>eggs = eggs s - 1, lb = lb s, ub = a\<rparr>)
                                (val_of \<lparr>eggs = eggs s, lb = a, ub = ub s\<rparr>)"
proof -
  have e: "0 < nat (eggs s)" using assms(1) by linarith
  have n: "2 \<le> nat (ub s - lb s)" using assms(2) by linarith
  from mindrops_bellman_ex[OF e n]
  obtain k where kk: "0 < k \<and> k < nat (ub s - lb s) \<and> (nat (eggs s) = 1 \<longrightarrow> k = 1) \<and>
    mindrops (nat (eggs s)) (nat (ub s - lb s)) =
       1 + max (mindrops (nat (eggs s) - 1) k) (mindrops (nat (eggs s)) (nat (ub s - lb s) - k))" ..
  have k: "0 < k" "k < nat (ub s - lb s)" "nat (eggs s) = 1 \<longrightarrow> k = 1"
    "mindrops (nat (eggs s)) (nat (ub s - lb s)) =
       1 + max (mindrops (nat (eggs s) - 1) k) (mindrops (nat (eggs s)) (nat (ub s - lb s) - k))"
    using kk by (rule conjunct1, rule conjunct2[THEN conjunct1],
        rule conjunct2[THEN conjunct2, THEN conjunct1], rule conjunct2[THEN conjunct2, THEN conjunct2])
  define a where "a = lb s + int k"
  have a1: "lb s < a" using k(1) by (simp add: a_def)
  have a2: "a < ub s" using k(2) by (simp add: a_def)
  have a3: "nat (a - lb s) = k" by (simp add: a_def)
  have one: "eggs s = 1 \<longrightarrow> a = lb s + 1"
  proof
    assume "eggs s = 1"
    then have "nat (eggs s) = 1" by simp
    with k(3) have "k = 1" by simp
    then show "a = lb s + 1" by (simp add: a_def)
  qed
  have "val_of s = int (1 + max (mindrops (nat (eggs s) - 1) k)
                                (mindrops (nat (eggs s)) (nat (ub s - lb s) - k)))"
    unfolding val_of_def by (simp only: k(4))
  also have "\<dots> = 1 + max (val_of \<lparr>eggs = eggs s - 1, lb = lb s, ub = a\<rparr>)
                          (val_of \<lparr>eggs = eggs s, lb = a, ub = ub s\<rparr>)"
    unfolding val_of_split[OF assms(1) a1 a2] a3 by (simp add: of_nat_max)
  finally show ?thesis using a1 a2 one by blast
qed

lemma val_of_mono_ub:
  "2 \<le> e \<Longrightarrow> a \<le> b \<Longrightarrow>
   val_of \<lparr>eggs = e - 1, lb = l, ub = a\<rparr> \<le> val_of \<lparr>eggs = e - 1, lb = l, ub = b\<rparr>"
  unfolding val_of_def by (simp add: mindrops_mono_n)

lemma val_of_mono_lb:
  "1 \<le> e \<Longrightarrow> a \<le> b \<Longrightarrow>
   val_of \<lparr>eggs = e, lb = b, ub = u\<rparr> \<le> val_of \<lparr>eggs = e, lb = a, ub = u\<rparr>"
  unfolding val_of_def by (simp add: mindrops_mono_n)

lemma val_of_nonneg: "0 \<le> val_of s"
  by (simp add: val_of_def)

text \<open>The maximum of a non-decreasing and a non-increasing function is a valley.\<close>

lemma sorted_after_increase:
  fixes p q :: "int \<Rightarrow> int"
  assumes p: "\<forall>a b. a \<in> set (x # y # zs) \<and> b \<in> set (x # y # zs) \<and> a \<le> b \<longrightarrow> p a \<le> p b"
    and q: "\<forall>a b. a \<in> set (x # y # zs) \<and> b \<in> set (x # y # zs) \<and> a \<le> b \<longrightarrow> q b \<le> q a"
    and s: "sorted (x # y # zs)"
    and inc: "max (p x) (q x) < max (p y) (q y)"
  shows "sorted (map (\<lambda>a. 1 + max (p a) (q a)) (y # zs))"
proof -
  have xy: "x \<le> y" using s by simp
  have qy: "q y \<le> q x" using q xy by simp
  have py: "q x < p y"
  proof (rule ccontr)
    assume "\<not> q x < p y"
    with qy have "max (p y) (q y) \<le> q x" by simp
    also have "q x \<le> max (p x) (q x)" by simp
    finally show False using inc by linarith
  qed
  have eq: "\<forall>z\<in>set (y # zs). 1 + max (p z) (q z) = 1 + p z"
  proof
    fix z assume z: "z \<in> set (y # zs)"
    with s have yz: "y \<le> z" by auto
    with p z have "p y \<le> p z" by simp
    moreover from q z yz have "q z \<le> q y" by simp
    ultimately show "1 + max (p z) (q z) = 1 + p z" using py qy by simp
  qed
  have "sorted_wrt (\<lambda>a b. p a \<le> p b) (y # zs)"
  proof (rule sorted_wrt_mono_rel[of "y # zs" "(\<le>)"])
    show "sorted_wrt (\<le>) (y # zs)" using s by simp
  next
    fix a b assume "a \<in> set (y # zs)" "b \<in> set (y # zs)" "a \<le> b"
    with p show "p a \<le> p b" by simp
  qed
  then have "sorted_wrt (\<lambda>a b. 1 + p a \<le> 1 + p b) (y # zs)"
    by (rule sorted_wrt_mono_rel[rotated]) simp
  then have "sorted (map (\<lambda>a. 1 + p a) (y # zs))"
    unfolding sorted_wrt_map .
  moreover have "map (\<lambda>a. 1 + max (p a) (q a)) (y # zs) = map (\<lambda>a. 1 + p a) (y # zs)"
    using eq by (intro map_cong) auto
  ultimately show ?thesis by (simp only:)
qed

lemma valley_map_max:
  fixes p q :: "int \<Rightarrow> int"
  assumes "\<forall>a b. a \<in> set xs \<and> b \<in> set xs \<and> a \<le> b \<longrightarrow> p a \<le> p b"
    and "\<forall>a b. a \<in> set xs \<and> b \<in> set xs \<and> a \<le> b \<longrightarrow> q b \<le> q a"
    and "sorted xs"
  shows "valley (map (\<lambda>a. 1 + max (p a) (q a)) xs)"
  using assms
proof (induction xs rule: induct_list012)
  case 1
  then show ?case by simp
next
  case (2 x)
  then show ?case by simp
next
  case (3 x y zs)
  define h where "h = (\<lambda>a. 1 + max (p a) (q a))"
  have unfold: "valley (map h (x # y # zs)) =
          (if h x < h y then sorted (map h (y # zs)) else valley (map h (y # zs)))"
    by simp
  show ?case
  proof (cases "h x < h y")
    case True
    then have "max (p x) (q x) < max (p y) (q y)" by (simp add: h_def)
    from sorted_after_increase[OF "3.prems" this] have "sorted (map h (y # zs))"
      by (simp only: h_def)
    with True unfold show ?thesis by (simp only: h_def if_True)
  next
    case False
    have "valley (map (\<lambda>a. 1 + max (p a) (q a)) (y # zs))"
      using "3.prems" by (intro "3.IH"(2)) auto
    then have "valley (map h (y # zs))" by (simp only: h_def)
    with False unfold show ?thesis by (simp only: h_def if_False)
  qed
qed

section \<open>The admissible actions of a cell of the scan\<close>

lemma lower_present:
  assumes inv: "tables_inv F E e V A" and wf: "wf_state F E s" and eg: "1 \<le> eggs s" "eggs s \<le> e"
    and a: "lb s < a" "a < ub s"
  shows "V \<lparr>eggs = eggs s - 1, lb = lb s, ub = a\<rparr> \<noteq> None \<longleftrightarrow> (2 \<le> eggs s \<or> a = lb s + 1)"
proof
  let ?s1 = "\<lparr>eggs = eggs s - 1, lb = lb s, ub = a\<rparr>"
  assume "V ?s1 \<noteq> None"
  then obtain v where "V ?s1 = Some v" by auto
  with inv have "ub ?s1 \<noteq> lb ?s1 + 1 \<longrightarrow> 1 \<le> eggs ?s1" unfolding tables_inv_def by blast
  with eg show "2 \<le> eggs s \<or> a = lb s + 1" by auto
next
  let ?s1 = "\<lparr>eggs = eggs s - 1, lb = lb s, ub = a\<rparr>"
  assume c: "2 \<le> eggs s \<or> a = lb s + 1"
  have wf1: "wf_state F E ?s1" using wf eg a by (simp add: wf_state_def)
  from c show "V ?s1 \<noteq> None"
  proof
    assume "2 \<le> eggs s"
    with eg have "1 \<le> eggs ?s1 \<and> eggs ?s1 < e" by simp
    with inv wf1 show ?thesis unfolding tables_inv_def by blast
  next
    assume "a = lb s + 1"
    then have "ub ?s1 = lb ?s1 + 1" by simp
    with inv wf1 show ?thesis unfolding tables_inv_def by blast
  qed
qed

lemma calc_present:
  assumes inv: "tables_inv F E e V A" and a: "lb s < a" "a < ub s"
    and p1: "V \<lparr>eggs = eggs s - 1, lb = lb s, ub = a\<rparr> \<noteq> None"
    and p2: "V \<lparr>eggs = eggs s, lb = a, ub = ub s\<rparr> \<noteq> None"
  shows "calc_maximum_value s a V = (True, split_val s a)"
proof -
  from inv_present(2)[OF inv p1] inv_present(2)[OF inv p2] val_of_nonneg
  show ?thesis
    by (simp add: calc_maximum_value_eq[OF a] split_val_def max_def)
qed

lemma calc_absent:
  assumes a: "lb s < a" "a < ub s"
    and p1: "V \<lparr>eggs = eggs s - 1, lb = lb s, ub = a\<rparr> = None"
  shows "\<not> cand s V a"
  using p1 by (simp add: cand_def calc_maximum_value_eq[OF a])

lemma split_val_pos: "split_val s a \<noteq> - 1"
proof -
  have "0 \<le> val_of \<lparr>eggs = eggs s - 1, lb = lb s, ub = a\<rparr>" by (rule val_of_nonneg)
  then show ?thesis unfolding split_val_def by linarith
qed

lemma cand_iff:
  assumes inv: "tables_inv F E e V A" and wf: "wf_state F E s" and eg: "1 \<le> eggs s" "eggs s \<le> e"
    and deps: "\<forall>a. lb s < a \<and> a < ub s \<longrightarrow> V \<lparr>eggs = eggs s, lb = a, ub = ub s\<rparr> \<noteq> None"
    and a: "lb s < a" "a < ub s"
  shows "cand s V a \<longleftrightarrow> (2 \<le> eggs s \<or> a = lb s + 1)"
proof (cases "V \<lparr>eggs = eggs s - 1, lb = lb s, ub = a\<rparr>")
  case None
  with calc_absent[of s a V, OF a None] lower_present[OF inv wf eg a] show ?thesis by simp
next
  case (Some v)
  then have p1: "V \<lparr>eggs = eggs s - 1, lb = lb s, ub = a\<rparr> \<noteq> None" by simp
  from deps a have p2: "V \<lparr>eggs = eggs s, lb = a, ub = ub s\<rparr> \<noteq> None" by simp
  have "cand s V a" using split_val_pos
    by (simp add: cand_def calc_present[OF inv a p1 p2])
  with lower_present[OF inv wf eg a] p1 show ?thesis by simp
qed

lemma cval_cand:
  assumes inv: "tables_inv F E e V A" and wf: "wf_state F E s" and eg: "1 \<le> eggs s" "eggs s \<le> e"
    and deps: "\<forall>a. lb s < a \<and> a < ub s \<longrightarrow> V \<lparr>eggs = eggs s, lb = a, ub = ub s\<rparr> \<noteq> None"
    and a: "lb s < a" "a < ub s" "2 \<le> eggs s \<or> a = lb s + 1"
  shows "cval s V a = split_val s a"
    "V \<lparr>eggs = eggs s - 1, lb = lb s, ub = a\<rparr> \<noteq> None"
    "V \<lparr>eggs = eggs s, lb = a, ub = ub s\<rparr> \<noteq> None"
proof -
  from lower_present[OF inv wf eg a(1,2)] a(3)
  show p1: "V \<lparr>eggs = eggs s - 1, lb = lb s, ub = a\<rparr> \<noteq> None" by simp
  from deps a show p2: "V \<lparr>eggs = eggs s, lb = a, ub = ub s\<rparr> \<noteq> None" by simp
  show "cval s V a = split_val s a"
    by (simp add: cval_def calc_present[OF inv a(1,2) p1 p2])
qed

lemma filter_first_only:
  "l + 2 \<le> u \<Longrightarrow> filter (\<lambda>a. a = l + 1) [l + 1..u - 1] = [l + 1::int]"
proof -
  assume "l + 2 \<le> u"
  then have "[l + 1..u - 1] = (l + 1) # [l + 1 + 1..u - 1]" by (subst upto_rec1) simp_all
  moreover have "filter (\<lambda>a. a = l + 1) [l + 1 + 1..u - 1] = []"
    by (auto simp: filter_empty_conv)
  ultimately show ?thesis by simp
qed

lemma candidates_eq:
  assumes inv: "tables_inv F E e V A" and wf: "wf_state F E s" and eg: "1 \<le> eggs s" "eggs s \<le> e"
    and deps: "\<forall>a. lb s < a \<and> a < ub s \<longrightarrow> V \<lparr>eggs = eggs s, lb = a, ub = ub s\<rparr> \<noteq> None"
    and nt: "lb s + 2 \<le> ub s"
  shows "candidates s V (lb s + 1) = (if 2 \<le> eggs s then [lb s + 1..ub s - 1] else [lb s + 1])"
proof -
  have "filter (cand s V) [lb s + 1..ub s - 1] =
        filter (\<lambda>a. 2 \<le> eggs s \<or> a = lb s + 1) [lb s + 1..ub s - 1]"
  proof (rule filter_cong[OF refl])
    fix a assume "a \<in> set [lb s + 1..ub s - 1]"
    then have "lb s < a" "a < ub s" by simp_all
    from cand_iff[OF inv wf eg deps this] show "cand s V a = (2 \<le> eggs s \<or> a = lb s + 1)" .
  qed
  also have "\<dots> = (if 2 \<le> eggs s then [lb s + 1..ub s - 1] else [lb s + 1])"
    using filter_first_only[OF nt] by simp
  finally show ?thesis by (simp add: candidates_def)
qed

lemma candidates_facts:
  assumes inv: "tables_inv F E e V A" and wf: "wf_state F E s" and eg: "1 \<le> eggs s" "eggs s \<le> e"
    and deps: "\<forall>a. lb s < a \<and> a < ub s \<longrightarrow> V \<lparr>eggs = eggs s, lb = a, ub = ub s\<rparr> \<noteq> None"
    and nt: "lb s + 2 \<le> ub s"
  shows "a \<in> set (candidates s V (lb s + 1)) \<longleftrightarrow> lb s < a \<and> a < ub s \<and> (2 \<le> eggs s \<or> a = lb s + 1)"
    and "sorted (candidates s V (lb s + 1))"
  using nt by (auto simp: candidates_eq[OF inv wf eg deps nt])

lemma cell_vals:
  assumes inv: "tables_inv F E e V A" and wf: "wf_state F E s" and eg: "1 \<le> eggs s" "eggs s \<le> e"
    and deps: "\<forall>a. lb s < a \<and> a < ub s \<longrightarrow> V \<lparr>eggs = eggs s, lb = a, ub = ub s\<rparr> \<noteq> None"
    and nt: "lb s + 2 \<le> ub s"
  shows "map (cval s V) (candidates s V (lb s + 1)) = map (split_val s) (candidates s V (lb s + 1))"
proof (rule map_cong[OF refl])
  fix a assume "a \<in> set (candidates s V (lb s + 1))"
  then have "lb s < a" "a < ub s" "2 \<le> eggs s \<or> a = lb s + 1"
    by (simp_all add: candidates_facts(1)[OF inv wf eg deps nt])
  from cval_cand(1)[OF inv wf eg deps this] show "cval s V a = split_val s a" .
qed

lemma cell_valley:
  assumes inv: "tables_inv F E e V A" and wf: "wf_state F E s" and eg: "1 \<le> eggs s" "eggs s \<le> e"
    and deps: "\<forall>a. lb s < a \<and> a < ub s \<longrightarrow> V \<lparr>eggs = eggs s, lb = a, ub = ub s\<rparr> \<noteq> None"
    and nt: "lb s + 2 \<le> ub s"
  shows "valley (map (split_val s) (candidates s V (lb s + 1)))"
proof (cases "2 \<le> eggs s")
  case False
  then show ?thesis by (simp add: candidates_eq[OF inv wf eg deps nt])
next
  case True
  let ?xs = "candidates s V (lb s + 1)"
  let ?p = "\<lambda>a. val_of \<lparr>eggs = eggs s - 1, lb = lb s, ub = a\<rparr>"
  let ?q = "\<lambda>a. val_of \<lparr>eggs = eggs s, lb = a, ub = ub s\<rparr>"
  have "valley (map (\<lambda>a. 1 + max (?p a) (?q a)) ?xs)"
  proof (rule valley_map_max)
    show "\<forall>a b. a \<in> set ?xs \<and> b \<in> set ?xs \<and> a \<le> b \<longrightarrow> ?p a \<le> ?p b"
      using val_of_mono_ub[OF True] by simp
    show "\<forall>a b. a \<in> set ?xs \<and> b \<in> set ?xs \<and> a \<le> b \<longrightarrow> ?q b \<le> ?q a"
      using val_of_mono_lb[OF eg(1)] by simp
    show "sorted ?xs" by (rule candidates_facts(2)[OF inv wf eg deps nt])
  qed
  then show ?thesis unfolding split_val_def .
qed

lemma cell_min:
  assumes inv: "tables_inv F E e V A" and wf: "wf_state F E s" and eg: "1 \<le> eggs s" "eggs s \<le> e"
    and deps: "\<forall>a. lb s < a \<and> a < ub s \<longrightarrow> V \<lparr>eggs = eggs s, lb = a, ub = ub s\<rparr> \<noteq> None"
    and nt: "lb s + 2 \<le> ub s"
  shows "candidates s V (lb s + 1) \<noteq> []"
    and "Min (set (map (split_val s) (candidates s V (lb s + 1)))) = val_of s"
proof -
  let ?xs = "candidates s V (lb s + 1)"
  note mem = candidates_facts(1)[OF inv wf eg deps nt]
  have e1: "1 \<le> eggs s" by (rule eg(1))
  from val_of_bellman_ex[OF e1 nt] obtain a where a: "lb s < a" "a < ub s"
    "eggs s = 1 \<longrightarrow> a = lb s + 1" "val_of s = split_val s a"
    unfolding split_val_def by blast
  have "2 \<le> eggs s \<or> a = lb s + 1" using a(3) eg by linarith
  with a have ain: "a \<in> set ?xs" by (simp add: mem)
  then show "?xs \<noteq> []" by auto
  show "Min (set (map (split_val s) ?xs)) = val_of s"
  proof (rule Min_eqI)
    show "finite (set (map (split_val s) ?xs))" by simp
    show "val_of s \<in> set (map (split_val s) ?xs)" using ain a(4) by auto
    fix y assume "y \<in> set (map (split_val s) ?xs)"
    then obtain b where b: "b \<in> set ?xs" "y = split_val s b" by auto
    then have bb: "lb s < b" "b < ub s" "2 \<le> eggs s \<or> b = lb s + 1" by (simp_all add: mem)
    then have "eggs s = 1 \<longrightarrow> b = lb s + 1" using eg by linarith
    from val_of_bellman_le[OF e1 bb(1,2) this] b(2) show "val_of s \<le> y"
      by (simp add: split_val_def)
  qed
qed

section \<open>The choice of an action\<close>

lemma total_policy_at_returns:
  assumes inv: "tables_inv F E e V A" and a: "lb s < a" "a < ub s"
    and p1: "V \<lparr>eggs = eggs s - 1, lb = lb s, ub = a\<rparr> \<noteq> None"
    and p2: "V \<lparr>eggs = eggs s, lb = a, ub = ub s\<rparr> \<noteq> None"
  shows "\<exists>n. total_policy_at s a A = Some (Inr n)"
  unfolding total_policy_at_def
proof (rule foldM_returns)
  fix l :: int and total :: int
  have "V (next_state s a l) \<noteq> None" using a p1 p2 by (simp add: next_state_cases)
  from policy_loop_returns[OF inv this, of l 1 "[]"] obtain k tr where
    "policy_loop A l (next_state s a l) 1 [] = Some (Inr (1 + k, [] @ tr))" by blast
  then show "\<exists>\<sigma>'. (case policy_loop A l (next_state s a l) 1 [] of
                     None \<Rightarrow> None
                   | Some (Inl e) \<Rightarrow> Some (Inl e)
                   | Some (Inr (steps, uu)) \<Rightarrow> Some (Inr (total + steps))) = Some (Inr \<sigma>')"
    by simp
qed

lemma total_policy_at_frame:
  assumes inv: "tables_inv F E e V A" and same: "\<forall>t. t \<noteq> s0 \<longrightarrow> A' t = A t"
    and a: "lb s < a" "a < ub s"
    and p1: "V \<lparr>eggs = eggs s - 1, lb = lb s, ub = a\<rparr> \<noteq> None"
    and p2: "V \<lparr>eggs = eggs s, lb = a, ub = ub s\<rparr> \<noteq> None"
    and rel: "eggs s < eggs s0 \<or> (eggs s = eggs s0 \<and> lb s0 \<le> lb s)"
  shows "total_policy_at s a A' = total_policy_at s a A"
  unfolding total_policy_at_def
proof (rule foldM_same)
  fix l :: int and total :: int
  have pr: "V (next_state s a l) \<noteq> None" using a p1 p2 by (simp add: next_state_cases)
  have "past s0 (next_state s a l)" using a rel by (auto simp: next_state_cases past_def)
  from policy_loop_frame[OF inv same pr this]
  have "policy_loop A' l (next_state s a l) 1 [] = policy_loop A l (next_state s a l) 1 []" .
  then show "(case policy_loop A' l (next_state s a l) 1 [] of
               None \<Rightarrow> None | Some (Inl e) \<Rightarrow> Some (Inl e)
             | Some (Inr (steps, uu)) \<Rightarrow> Some (Inr (total + steps))) =
            (case policy_loop A l (next_state s a l) 1 [] of
               None \<Rightarrow> None | Some (Inl e) \<Rightarrow> Some (Inl e)
             | Some (Inr (steps, uu)) \<Rightarrow> Some (Inr (total + steps)))"
    by simp
qed

lemma set_ties_of: "a \<in> set (ties_of xs ys v) \<Longrightarrow> a \<in> set xs"
  unfolding ties_of_def by (auto dest: set_zip_leftD)

lemma select_action_frame:
  assumes "\<forall>a\<in>set acts. total_policy_at s a A' = total_policy_at s a A"
  shows "select_action tb s A' acts vals = select_action tb s A acts vals"
proof -
  have "mapM (\<lambda>a. total_policy_at s a A') (ties_of acts vals (vals ! argmin vals)) =
        mapM (\<lambda>a. total_policy_at s a A) (ties_of acts vals (vals ! argmin vals))"
    using assms by (intro mapM_same) (auto dest: set_ties_of)
  then show ?thesis by (simp add: select_action_def Let_def)
qed

lemma select_action_returns:
  assumes vals: "vals = map g acts" "acts \<noteq> []"
    and tot: "\<forall>a\<in>set acts. \<exists>n. total_policy_at s a A = Some (Inr n)"
  shows "\<exists>a. select_action tb s A acts vals = Some (Inr (Min (set vals), a)) \<and>
             a \<in> set acts \<and> g a = Min (set vals)"
proof -
  have ne: "vals \<noteq> []" using vals by simp
  from argmin_spec[OF ne] have v: "vals ! argmin vals = Min (set vals)" by simp
  let ?ties = "ties_of acts vals (Min (set vals))"
  have ties: "?ties = filter (\<lambda>a. g a = Min (set vals)) acts"
    unfolding vals(1) by (rule ties_of_map)
  have tne: "?ties \<noteq> []" unfolding vals(1) by (rule ties_of_Min[OF vals(2)])
  have mem: "\<And>i. i < length ?ties \<Longrightarrow> ?ties ! i \<in> set acts \<and> g (?ties ! i) = Min (set vals)"
  proof -
    fix i assume "i < length ?ties"
    then have "?ties ! i \<in> set ?ties" by (rule nth_mem)
    then show "?ties ! i \<in> set acts \<and> g (?ties ! i) = Min (set vals)"
      unfolding ties by simp
  qed
  show ?thesis
  proof (cases tb)
    case False
    have "length ?ties div 2 < length ?ties" using tne by simp
    from mem[OF this] False v show ?thesis by (simp add: select_action_def Let_def)
  next
    case True
    have "\<exists>ys. mapM (\<lambda>a. total_policy_at s a A) ?ties = Some (Inr ys) \<and> length ys = length ?ties"
    proof (rule mapM_returns)
      fix x assume "x \<in> set ?ties"
      then have "x \<in> set acts" by (rule set_ties_of)
      with tot show "\<exists>y. total_policy_at s x A = Some (Inr y)" by blast
    qed
    then obtain ys where ys: "mapM (\<lambda>a. total_policy_at s a A) ?ties = Some (Inr ys)"
      "length ys = length ?ties" by blast
    with tne have "ys \<noteq> []" by auto
    from argmin_spec[OF this] ys(2) have "argmin ys < length ?ties" by simp
    from mem[OF this] True v ys(1) show ?thesis by (simp add: select_action_def Let_def)
  qed
qed

lemma cell_select:
  assumes inv: "tables_inv F E e V A" and wf: "wf_state F E s" and eg: "1 \<le> eggs s" "eggs s \<le> e"
    and deps: "\<forall>a. lb s < a \<and> a < ub s \<longrightarrow> V \<lparr>eggs = eggs s, lb = a, ub = ub s\<rparr> \<noteq> None"
    and nt: "lb s + 2 \<le> ub s"
  shows "\<exists>acts vals a.
           find_admissible_actions s V [] [] True = (acts, vals) \<and> vals \<noteq> [] \<and>
           (\<forall>b\<in>set acts. lb s < b \<and> b < ub s \<and>
              V \<lparr>eggs = eggs s - 1, lb = lb s, ub = b\<rparr> \<noteq> None \<and>
              V \<lparr>eggs = eggs s, lb = b, ub = ub s\<rparr> \<noteq> None) \<and>
           select_action tb s A acts vals = Some (Inr (val_of s, a)) \<and>
           a \<in> set acts \<and> split_val s a = val_of s"
proof -
  let ?cs = "candidates s V (lb s + 1)"
  let ?fv = "map (split_val s) ?cs"
  define vals where "vals = cut_vals [] ?fv"
  define acts where "acts = take (length vals) ?cs"
  have find: "find_admissible_actions s V [] [] True = (acts, vals)"
    unfolding find_admissible_cut cell_vals[OF inv wf eg deps nt] acts_def vals_def by simp
  have cne: "?cs \<noteq> []" by (rule cell_min(1)[OF inv wf eg deps nt])
  then have vne: "vals \<noteq> []" by (simp add: vals_def cut_vals_empty)
  have "vals = take (length vals) ?fv" unfolding vals_def by (rule cut_vals_prefix)
  then have vmap: "vals = map (split_val s) acts" by (simp add: acts_def take_map)
  with vne have ane: "acts \<noteq> []" by auto
  have sub: "\<And>b. b \<in> set acts \<Longrightarrow> b \<in> set ?cs" unfolding acts_def by (rule in_set_takeD)
  have facts: "\<And>b. b \<in> set acts \<Longrightarrow> lb s < b \<and> b < ub s \<and>
              V \<lparr>eggs = eggs s - 1, lb = lb s, ub = b\<rparr> \<noteq> None \<and>
              V \<lparr>eggs = eggs s, lb = b, ub = ub s\<rparr> \<noteq> None"
  proof -
    fix b assume "b \<in> set acts"
    from sub[OF this] have b: "lb s < b" "b < ub s" "2 \<le> eggs s \<or> b = lb s + 1"
      by (simp_all add: candidates_facts(1)[OF inv wf eg deps nt])
    from cval_cand(2,3)[OF inv wf eg deps b] b(1,2)
    show "lb s < b \<and> b < ub s \<and>
              V \<lparr>eggs = eggs s - 1, lb = lb s, ub = b\<rparr> \<noteq> None \<and>
              V \<lparr>eggs = eggs s, lb = b, ub = ub s\<rparr> \<noteq> None" by simp
  qed
  have min: "Min (set vals) = val_of s"
  proof -
    have "Min (set vals) = Min (set ?fv)"
      unfolding vals_def using cne
      by (intro cut_vals_min cell_valley[OF inv wf eg deps nt]) simp
    then show ?thesis by (simp only: cell_min(2)[OF inv wf eg deps nt])
  qed
  have tot: "\<forall>a\<in>set acts. \<exists>n. total_policy_at s a A = Some (Inr n)"
  proof
    fix a assume "a \<in> set acts"
    from facts[OF this] show "\<exists>n. total_policy_at s a A = Some (Inr n)"
      by (intro total_policy_at_returns[OF inv]) simp_all
  qed
  from select_action_returns[OF vmap ane tot, of tb] obtain a where
    a: "select_action tb s A acts vals = Some (Inr (Min (set vals), a))" "a \<in> set acts"
       "split_val s a = Min (set vals)" by blast
  from find vne facts a min show ?thesis by (intro exI[of _ acts] exI[of _ vals] exI[of _ a]) simp
qed

section \<open>Updating one cell\<close>

lemma tables_inv_update:
  assumes inv: "tables_inv F E e V A" and wf: "wf_state F E s" and eg: "1 \<le> eggs s" "eggs s \<le> e"
    and nt: "lb s + 2 \<le> ub s" and a: "lb s < a" "a < ub s"
    and p1: "V \<lparr>eggs = eggs s - 1, lb = lb s, ub = a\<rparr> \<noteq> None"
    and p2: "V \<lparr>eggs = eggs s, lb = a, ub = ub s\<rparr> \<noteq> None"
    and opt: "split_val s a = val_of s"
  shows "tables_inv F E e (V(s \<mapsto> val_of s)) (A(s \<mapsto> a))"
  unfolding tables_inv_def
proof (intro conjI allI impI)
  fix t v assume "(V(s \<mapsto> val_of s)) t = Some v"
  then have "(t = s \<and> v = val_of s) \<or> V t = Some v" by (auto split: if_splits)
  then have r: "wf_state F E t \<and> v = val_of t \<and> (ub t \<noteq> lb t + 1 \<longrightarrow> 1 \<le> eggs t \<and> eggs t \<le> e)"
  proof
    assume "t = s \<and> v = val_of s"
    with wf eg show ?thesis by simp
  next
    assume "V t = Some v"
    with inv show ?thesis unfolding tables_inv_def by blast
  qed
  from r show "wf_state F E t" by simp
  from r show "v = val_of t" by simp
  { assume "ub t \<noteq> lb t + 1" with r show "1 \<le> eggs t" "eggs t \<le> e" by simp_all }
next
  fix t assume "wf_state F E t \<and> ub t = lb t + 1"
  with inv have "V t \<noteq> None" unfolding tables_inv_def by blast
  then show "(V(s \<mapsto> val_of s)) t \<noteq> None" by simp
next
  fix t assume "wf_state F E t \<and> 1 \<le> eggs t \<and> eggs t < e"
  with inv have "V t \<noteq> None" unfolding tables_inv_def by blast
  then show "(V(s \<mapsto> val_of s)) t \<noteq> None" by simp
next
  fix t b assume ab: "(A(s \<mapsto> a)) t = Some b"
  let ?V = "V(s \<mapsto> val_of s)"
  have rr: "(V t \<noteq> None \<or> t = s) \<and> ub t \<noteq> lb t + 1 \<and> lb t < b \<and> b < ub t \<and>
        V \<lparr>eggs = eggs t - 1, lb = lb t, ub = b\<rparr> \<noteq> None \<and>
        V \<lparr>eggs = eggs t, lb = b, ub = ub t\<rparr> \<noteq> None \<and>
        val_of t = 1 + max (val_of \<lparr>eggs = eggs t - 1, lb = lb t, ub = b\<rparr>)
                           (val_of \<lparr>eggs = eggs t, lb = b, ub = ub t\<rparr>)"
  proof (cases "t = s")
    case True
    with ab have "b = a" by simp
    with True nt a p1 p2 opt show ?thesis by (simp add: split_val_def)
  next
    case False
    with ab have "A t = Some b" by simp
    with inv show ?thesis unfolding tables_inv_def by blast
  qed
  then have r: "V t \<noteq> None \<or> t = s" "ub t \<noteq> lb t + 1" "lb t < b" "b < ub t"
      "V \<lparr>eggs = eggs t - 1, lb = lb t, ub = b\<rparr> \<noteq> None"
      "V \<lparr>eggs = eggs t, lb = b, ub = ub t\<rparr> \<noteq> None"
      "val_of t = 1 + max (val_of \<lparr>eggs = eggs t - 1, lb = lb t, ub = b\<rparr>)
                           (val_of \<lparr>eggs = eggs t, lb = b, ub = ub t\<rparr>)"
    by blast+
  from r(1) show "?V t \<noteq> None" by auto
  from r(2) show "ub t \<noteq> lb t + 1" .
  from r(3) show "lb t < b" .
  from r(4) show "b < ub t" .
  from r(5) show "?V \<lparr>eggs = eggs t - 1, lb = lb t, ub = b\<rparr> \<noteq> None" by simp
  from r(6) show "?V \<lparr>eggs = eggs t, lb = b, ub = ub t\<rparr> \<noteq> None" by simp
  from r(7) show "val_of t = 1 + max (val_of \<lparr>eggs = eggs t - 1, lb = lb t, ub = b\<rparr>)
                           (val_of \<lparr>eggs = eggs t, lb = b, ub = ub t\<rparr>)" .
next
  fix t assume t: "(V(s \<mapsto> val_of s)) t \<noteq> None \<and> ub t \<noteq> lb t + 1"
  show "(A(s \<mapsto> a)) t \<noteq> None"
  proof (cases "t = s")
    case True
    then show ?thesis by simp
  next
    case False
    with t have "V t \<noteq> None \<and> ub t \<noteq> lb t + 1" by simp
    with inv have "A t \<noteq> None" unfolding tables_inv_def by blast
    with False show ?thesis by simp
  qed
qed

lemma neq_by_eggs: "eggs x \<noteq> eggs (y::tState) \<Longrightarrow> x \<noteq> y"
  by auto

lemma neq_by_lb: "lb x \<noteq> lb (y::tState) \<Longrightarrow> x \<noteq> y"
  by auto

lemma neq_later:
  assumes "eggs s < eggs s0 \<or> (eggs s = eggs s0 \<and> lb s0 \<le> lb s)" and "lb s < a"
  shows "\<lparr>eggs = eggs s, lb = a, ub = u\<rparr> \<noteq> s0"
  using assms(1)
proof
  assume "eggs s < eggs s0"
  then show ?thesis by (intro neq_by_eggs) simp
next
  assume "eggs s = eggs s0 \<and> lb s0 \<le> lb s"
  with assms(2) show ?thesis by (intro neq_by_lb) simp
qed

text \<open>Reading a cell depends only on the entries of its successors.\<close>

lemma calc_frame:
  assumes same: "\<forall>t. t \<noteq> s0 \<longrightarrow> V' t = V t" and a: "lb s < a" "a < ub s"
    and rel: "eggs s < eggs s0 \<or> (eggs s = eggs s0 \<and> lb s0 \<le> lb s)"
  shows "calc_maximum_value s a V' = calc_maximum_value s a V"
proof -
  have "\<lparr>eggs = eggs s - 1, lb = lb s, ub = a\<rparr> \<noteq> s0" using rel by (intro neq_by_eggs) auto
  moreover have "\<lparr>eggs = eggs s, lb = a, ub = ub s\<rparr> \<noteq> s0" by (rule neq_later[OF rel a(1)])
  ultimately have "V' \<lparr>eggs = eggs s - 1, lb = lb s, ub = a\<rparr> = V \<lparr>eggs = eggs s - 1, lb = lb s, ub = a\<rparr>"
    "V' \<lparr>eggs = eggs s, lb = a, ub = ub s\<rparr> = V \<lparr>eggs = eggs s, lb = a, ub = ub s\<rparr>"
    using same by simp_all
  then show ?thesis unfolding calc_maximum_value_eq[OF a] by (simp only:)
qed

lemma find_frame:
  assumes same: "\<forall>t. t \<noteq> s0 \<longrightarrow> V' t = V t"
    and rel: "eggs s < eggs s0 \<or> (eggs s = eggs s0 \<and> lb s0 \<le> lb s)"
  shows "find_admissible_actions s V' [] [] True = find_admissible_actions s V [] [] True"
proof -
  have c: "\<And>a. a \<in> set [lb s + 1..ub s - 1] \<Longrightarrow> calc_maximum_value s a V' = calc_maximum_value s a V"
    using calc_frame[OF same _ _ rel] by simp
  have cs: "candidates s V' (lb s + 1) = candidates s V (lb s + 1)"
    unfolding candidates_def by (rule filter_cong[OF refl]) (simp add: cand_def c)
  have mp: "map (cval s V') (candidates s V (lb s + 1)) = map (cval s V) (candidates s V (lb s + 1))"
    by (rule map_cong[OF refl]) (simp add: cval_def c candidates_def)
  show ?thesis unfolding find_admissible_cut cs mp ..
qed

lemma cell_ok_unchanged:
  assumes "cell_ok tb V A t"
  shows "scan_cell tb t (V, A, i, m) = Some (Inr (V, A, i, m))"
  using assms unfolding cell_ok_def
proof
  assume "V t \<noteq> None \<and> isterminal t"
  then show ?thesis by (simp add: scan_cell_def)
next
  assume "\<not> isterminal t \<and> (\<exists>acts vals a.
         find_admissible_actions t V [] [] True = (acts, vals) \<and> vals \<noteq> [] \<and>
         (\<forall>b\<in>set acts. lb t < b \<and> b < ub t \<and>
              V \<lparr>eggs = eggs t - 1, lb = lb t, ub = b\<rparr> \<noteq> None \<and>
              V \<lparr>eggs = eggs t, lb = b, ub = ub t\<rparr> \<noteq> None) \<and>
         select_action tb t A acts vals = Some (Inr (val_of t, a)) \<and>
         V t = Some (val_of t) \<and> A t = Some a)"
  then obtain acts vals a where nt: "\<not> isterminal t"
    and f: "find_admissible_actions t V [] [] True = (acts, vals)" "vals \<noteq> []"
    and sel: "select_action tb t A acts vals = Some (Inr (val_of t, a))"
    and st: "V t = Some (val_of t)" "A t = Some a" by blast
  then show ?thesis by (simp add: scan_cell_def)
qed

lemma cell_ok_frame:
  assumes inv: "tables_inv F E e V A" and ok: "cell_ok tb V A t"
    and same: "\<forall>x. x \<noteq> s0 \<longrightarrow> V' x = V x" "\<forall>x. x \<noteq> s0 \<longrightarrow> A' x = A x"
    and rel: "t \<noteq> s0" "eggs t < eggs s0 \<or> (eggs t = eggs s0 \<and> lb s0 \<le> lb t)"
  shows "cell_ok tb V' A' t"
  using ok unfolding cell_ok_def
proof
  assume "V t \<noteq> None \<and> isterminal t"
  with same rel(1) have "V' t \<noteq> None \<and> isterminal t" by simp
  then show "(V' t \<noteq> None \<and> isterminal t) \<or>
     (\<not> isterminal t \<and> (\<exists>acts vals a.
         find_admissible_actions t V' [] [] True = (acts, vals) \<and> vals \<noteq> [] \<and>
         (\<forall>b\<in>set acts. lb t < b \<and> b < ub t \<and>
              V' \<lparr>eggs = eggs t - 1, lb = lb t, ub = b\<rparr> \<noteq> None \<and>
              V' \<lparr>eggs = eggs t, lb = b, ub = ub t\<rparr> \<noteq> None) \<and>
         select_action tb t A' acts vals = Some (Inr (val_of t, a)) \<and>
         V' t = Some (val_of t) \<and> A' t = Some a))" by (rule disjI1)
next
  assume "\<not> isterminal t \<and> (\<exists>acts vals a.
         find_admissible_actions t V [] [] True = (acts, vals) \<and> vals \<noteq> [] \<and>
         (\<forall>b\<in>set acts. lb t < b \<and> b < ub t \<and>
              V \<lparr>eggs = eggs t - 1, lb = lb t, ub = b\<rparr> \<noteq> None \<and>
              V \<lparr>eggs = eggs t, lb = b, ub = ub t\<rparr> \<noteq> None) \<and>
         select_action tb t A acts vals = Some (Inr (val_of t, a)) \<and>
         V t = Some (val_of t) \<and> A t = Some a)"
  then obtain acts vals a where nt: "\<not> isterminal t"
    and f: "find_admissible_actions t V [] [] True = (acts, vals)" "vals \<noteq> []"
    and pr: "\<forall>b\<in>set acts. lb t < b \<and> b < ub t \<and>
              V \<lparr>eggs = eggs t - 1, lb = lb t, ub = b\<rparr> \<noteq> None \<and>
              V \<lparr>eggs = eggs t, lb = b, ub = ub t\<rparr> \<noteq> None"
    and sel: "select_action tb t A acts vals = Some (Inr (val_of t, a))"
    and st: "V t = Some (val_of t)" "A t = Some a" by blast
  have f': "find_admissible_actions t V' [] [] True = (acts, vals)"
    using find_frame[OF same(1) rel(2)] f(1) by simp
  have pr': "\<forall>b\<in>set acts. lb t < b \<and> b < ub t \<and>
              V' \<lparr>eggs = eggs t - 1, lb = lb t, ub = b\<rparr> \<noteq> None \<and>
              V' \<lparr>eggs = eggs t, lb = b, ub = ub t\<rparr> \<noteq> None"
  proof
    fix b assume b: "b \<in> set acts"
    with pr have p: "lb t < b" "b < ub t"
              "V \<lparr>eggs = eggs t - 1, lb = lb t, ub = b\<rparr> \<noteq> None"
              "V \<lparr>eggs = eggs t, lb = b, ub = ub t\<rparr> \<noteq> None" by simp_all
    have "\<lparr>eggs = eggs t - 1, lb = lb t, ub = b\<rparr> \<noteq> s0" using rel(2) by (intro neq_by_eggs) auto
    moreover have "\<lparr>eggs = eggs t, lb = b, ub = ub t\<rparr> \<noteq> s0" by (rule neq_later[OF rel(2) p(1)])
    ultimately show "lb t < b \<and> b < ub t \<and>
              V' \<lparr>eggs = eggs t - 1, lb = lb t, ub = b\<rparr> \<noteq> None \<and>
              V' \<lparr>eggs = eggs t, lb = b, ub = ub t\<rparr> \<noteq> None"
      using p same(1) by simp
  qed
  have "\<forall>b\<in>set acts. total_policy_at t b A' = total_policy_at t b A"
  proof
    fix b assume "b \<in> set acts"
    with pr have p: "lb t < b" "b < ub t"
              "V \<lparr>eggs = eggs t - 1, lb = lb t, ub = b\<rparr> \<noteq> None"
              "V \<lparr>eggs = eggs t, lb = b, ub = ub t\<rparr> \<noteq> None" by simp_all
    from total_policy_at_frame[OF inv same(2) p rel(2)]
    show "total_policy_at t b A' = total_policy_at t b A" .
  qed
  from select_action_frame[OF this] sel
  have sel': "select_action tb t A' acts vals = Some (Inr (val_of t, a))" by simp
  have st': "V' t = Some (val_of t)" "A' t = Some a" using st same rel(1) by simp_all
  from nt f' f(2) pr' sel' st'
  show "(V' t \<noteq> None \<and> isterminal t) \<or>
     (\<not> isterminal t \<and> (\<exists>acts vals a.
         find_admissible_actions t V' [] [] True = (acts, vals) \<and> vals \<noteq> [] \<and>
         (\<forall>b\<in>set acts. lb t < b \<and> b < ub t \<and>
              V' \<lparr>eggs = eggs t - 1, lb = lb t, ub = b\<rparr> \<noteq> None \<and>
              V' \<lparr>eggs = eggs t, lb = b, ub = ub t\<rparr> \<noteq> None) \<and>
         select_action tb t A' acts vals = Some (Inr (val_of t, a)) \<and>
         V' t = Some (val_of t) \<and> A' t = Some a))" by blast
qed

section \<open>One scan of a level\<close>

lemma cell_ok_present: "cell_ok tb V A t \<Longrightarrow> V t \<noteq> None"
  unfolding cell_ok_def by auto

lemma scan_cell_step:
  assumes inv: "tables_inv F E e V A" and wf: "wf_state F E s" and eg: "eggs s = e" "1 \<le> e"
    and deps: "\<forall>a. lb s < a \<and> a < ub s \<longrightarrow> V \<lparr>eggs = eggs s, lb = a, ub = ub s\<rparr> \<noteq> None"
  shows "\<exists>V' A' i' m'. scan_cell tb s (V, A, i, m) = Some (Inr (V', A', i', m')) \<and>
           tables_inv F E e V' A' \<and> (\<forall>t. t \<noteq> s \<longrightarrow> V' t = V t) \<and> (\<forall>t. t \<noteq> s \<longrightarrow> A' t = A t) \<and>
           cell_ok tb V' A' s"
proof (cases "ub s = lb s + 1")
  case True
  with wf have istrm: "isterminal s" by (simp add: isterminal_def wf_state_def)
  from inv wf True have pres: "V s \<noteq> None" unfolding tables_inv_def by blast
  have "scan_cell tb s (V, A, i, m) = Some (Inr (V, A, i, m))"
    using istrm pres by (simp add: scan_cell_def)
  moreover have "cell_ok tb V A s" using istrm pres by (simp add: cell_ok_def)
  ultimately show ?thesis using inv by blast
next
  case False
  with wf have nt: "lb s + 2 \<le> ub s" by (simp add: wf_state_def)
  then have nterm: "\<not> isterminal s" by (simp add: isterminal_def)
  have eg': "1 \<le> eggs s" "eggs s \<le> e" using eg by simp_all
  from cell_select[OF inv wf eg' deps nt, of tb] obtain acts vals a where
    f: "find_admissible_actions s V [] [] True = (acts, vals)" "vals \<noteq> []"
    and pr: "\<forall>b\<in>set acts. lb s < b \<and> b < ub s \<and>
              V \<lparr>eggs = eggs s - 1, lb = lb s, ub = b\<rparr> \<noteq> None \<and>
              V \<lparr>eggs = eggs s, lb = b, ub = ub s\<rparr> \<noteq> None"
    and sel: "select_action tb s A acts vals = Some (Inr (val_of s, a))"
    and a: "a \<in> set acts" "split_val s a = val_of s" by blast
  from pr a(1) have pa: "lb s < a" "a < ub s"
      "V \<lparr>eggs = eggs s - 1, lb = lb s, ub = a\<rparr> \<noteq> None"
      "V \<lparr>eggs = eggs s, lb = a, ub = ub s\<rparr> \<noteq> None" by simp_all
  define V' where "V' = V(s \<mapsto> val_of s)"
  define A' where "A' = A(s \<mapsto> a)"
  have sameV: "\<forall>t. t \<noteq> s \<longrightarrow> V' t = V t" and sameA: "\<forall>t. t \<noteq> s \<longrightarrow> A' t = A t"
    by (simp_all add: V'_def A'_def)
  have res: "\<exists>i' m'. scan_cell tb s (V, A, i, m) = Some (Inr (V', A', i', m'))"
  proof (cases "V s")
    case None
    have "A s = None"
    proof (rule ccontr)
      assume "A s \<noteq> None"
      then obtain b where "A s = Some b" by auto
      with inv have "V s \<noteq> None" unfolding tables_inv_def by blast
      with None show False by simp
    qed
    with None nterm f sel show ?thesis
      by (simp add: scan_cell_def map_insert_def V'_def A'_def)
  next
    case (Some st)
    with inv_present(2)[OF inv, of s] have st: "V s = Some (val_of s)" by simp
    from inv st False obtain sa where sa: "A s = Some sa"
      unfolding tables_inv_def by (metis option.distinct(1) option.exhaust)
    show ?thesis
    proof (cases "sa = a")
      case True
      have "V' = V" "A' = A" using st sa True by (auto simp: V'_def A'_def)
      with st sa True nterm f sel show ?thesis by (simp add: scan_cell_def)
    next
      case False
      with st sa nterm f sel show ?thesis by (simp add: scan_cell_def V'_def A'_def)
    qed
  qed
  have inv': "tables_inv F E e V' A'"
    unfolding V'_def A'_def by (rule tables_inv_update[OF inv wf eg' nt pa a(2)])
  have f': "find_admissible_actions s V' [] [] True = (acts, vals)"
    using find_frame[OF sameV, of s] f(1) by simp
  have pr': "\<forall>b\<in>set acts. lb s < b \<and> b < ub s \<and>
              V' \<lparr>eggs = eggs s - 1, lb = lb s, ub = b\<rparr> \<noteq> None \<and>
              V' \<lparr>eggs = eggs s, lb = b, ub = ub s\<rparr> \<noteq> None"
    using pr by (simp add: V'_def)
  have "\<forall>b\<in>set acts. total_policy_at s b A' = total_policy_at s b A"
  proof
    fix b assume "b \<in> set acts"
    with pr have p: "lb s < b" "b < ub s"
              "V \<lparr>eggs = eggs s - 1, lb = lb s, ub = b\<rparr> \<noteq> None"
              "V \<lparr>eggs = eggs s, lb = b, ub = ub s\<rparr> \<noteq> None" by simp_all
    from total_policy_at_frame[OF inv sameA p]
    show "total_policy_at s b A' = total_policy_at s b A" by simp
  qed
  from select_action_frame[OF this] sel
  have sel': "select_action tb s A' acts vals = Some (Inr (val_of s, a))" by simp
  have "V' s = Some (val_of s)" "A' s = Some a" by (simp_all add: V'_def A'_def)
  with nterm f' f(2) pr' sel' have "cell_ok tb V' A' s" unfolding cell_ok_def by blast
  with res inv' sameV sameA show ?thesis by blast
qed

lemma inner_loop:
  assumes e: "1 \<le> e" "e \<le> E" and l: "0 \<le> l"
  shows "level_inv tb F E e V A P \<Longrightarrow> (\<forall>t\<in>P. eggs t < e \<or> (eggs t = e \<and> l \<le> lb t)) \<Longrightarrow>
         (\<forall>a u. l < a \<and> a < u \<and> u \<le> F + 1 \<longrightarrow> \<lparr>eggs = e, lb = a, ub = u\<rparr> \<in> P) \<Longrightarrow>
         (\<forall>u\<in>set us. l < u \<and> u \<le> F + 1) \<Longrightarrow>
         \<exists>V' A' i' m'.
           foldM (\<lambda>u. scan_cell tb \<lparr>eggs = e, lb = l, ub = u\<rparr>) us (V, A, i, m)
             = Some (Inr (V', A', i', m')) \<and>
           level_inv tb F E e V' A' (P \<union> (\<lambda>u. \<lparr>eggs = e, lb = l, ub = u\<rparr>) ` set us)"
proof (induction us arbitrary: V A i m P)
  case Nil
  then show ?case by simp
next
  case (Cons u us)
  let ?s = "\<lparr>eggs = e, lb = l, ub = u\<rparr>"
  from Cons.prems(1) have inv: "tables_inv F E e V A" and ok: "\<forall>t\<in>P. cell_ok tb V A t"
    by (simp_all add: level_inv_def)
  from Cons.prems(4) have u: "l < u" "u \<le> F + 1" by simp_all
  have wf: "wf_state F E ?s" using e l u by (simp add: wf_state_def)
  have deps: "\<forall>a. lb ?s < a \<and> a < ub ?s \<longrightarrow> V \<lparr>eggs = eggs ?s, lb = a, ub = ub ?s\<rparr> \<noteq> None"
  proof (intro allI impI)
    fix a assume "lb ?s < a \<and> a < ub ?s"
    with u Cons.prems(3) have "\<lparr>eggs = e, lb = a, ub = u\<rparr> \<in> P" by simp
    with ok have "cell_ok tb V A \<lparr>eggs = e, lb = a, ub = u\<rparr>" by blast
    then show "V \<lparr>eggs = eggs ?s, lb = a, ub = ub ?s\<rparr> \<noteq> None"
      by (simp add: cell_ok_present)
  qed
  from scan_cell_step[OF inv wf _ e(1) deps, of tb i m] obtain V1 A1 i1 m1 where
    step: "scan_cell tb ?s (V, A, i, m) = Some (Inr (V1, A1, i1, m1))"
    and inv1: "tables_inv F E e V1 A1"
    and same: "\<forall>t. t \<noteq> ?s \<longrightarrow> V1 t = V t" "\<forall>t. t \<noteq> ?s \<longrightarrow> A1 t = A t"
    and ok1: "cell_ok tb V1 A1 ?s" by auto
  have "\<forall>t\<in>insert ?s P. cell_ok tb V1 A1 t"
  proof
    fix t assume t: "t \<in> insert ?s P"
    show "cell_ok tb V1 A1 t"
    proof (cases "t = ?s")
      case True
      with ok1 show ?thesis by simp
    next
      case False
      with t have tp: "t \<in> P" by simp
      with ok have okt: "cell_ok tb V A t" by blast
      from tp Cons.prems(2) have "eggs t < eggs ?s \<or> (eggs t = eggs ?s \<and> lb ?s \<le> lb t)" by simp
      from cell_ok_frame[OF inv okt same False this] show ?thesis .
    qed
  qed
  with inv1 have li: "level_inv tb F E e V1 A1 (insert ?s P)" by (simp add: level_inv_def)
  have c2: "\<forall>t\<in>insert ?s P. eggs t < e \<or> (eggs t = e \<and> l \<le> lb t)" using Cons.prems(2) by simp
  have c3: "\<forall>a u. l < a \<and> a < u \<and> u \<le> F + 1 \<longrightarrow> \<lparr>eggs = e, lb = a, ub = u\<rparr> \<in> insert ?s P"
    using Cons.prems(3) by simp
  have c4: "\<forall>u\<in>set us. l < u \<and> u \<le> F + 1" using Cons.prems(4) by simp
  from Cons.IH[OF li c2 c3 c4, of i1 m1] obtain V' A' i' m' where
    r: "foldM (\<lambda>u. scan_cell tb \<lparr>eggs = e, lb = l, ub = u\<rparr>) us (V1, A1, i1, m1)
          = Some (Inr (V', A', i', m'))"
       "level_inv tb F E e V' A' (insert ?s P \<union> (\<lambda>u. \<lparr>eggs = e, lb = l, ub = u\<rparr>) ` set us)"
    by blast
  have "insert ?s P \<union> (\<lambda>u. \<lparr>eggs = e, lb = l, ub = u\<rparr>) ` set us
        = P \<union> (\<lambda>u. \<lparr>eggs = e, lb = l, ub = u\<rparr>) ` set (u # us)" by auto
  with r(2) have "level_inv tb F E e V' A' (P \<union> (\<lambda>u. \<lparr>eggs = e, lb = l, ub = u\<rparr>) ` set (u # us))"
    by simp
  moreover have "foldM (\<lambda>u. scan_cell tb \<lparr>eggs = e, lb = l, ub = u\<rparr>) (u # us) (V, A, i, m)
          = Some (Inr (V', A', i', m'))" using step r(1) by simp
  ultimately show ?case by blast
qed

lemma cells_above_step:
  "0 \<le> k \<Longrightarrow> cells_above e F k \<union> (\<lambda>u. \<lparr>eggs = e, lb = k, ub = u\<rparr>) ` set [k + 1..F + 1]
     = cells_above e F (k - 1)"
proof (intro set_eqI iffI)
  fix t assume "t \<in> cells_above e F k \<union> (\<lambda>u. \<lparr>eggs = e, lb = k, ub = u\<rparr>) ` set [k + 1..F + 1]"
  then show "t \<in> cells_above e F (k - 1)" by (auto simp: cells_above_def)
next
  fix t assume t: "t \<in> cells_above e F (k - 1)"
  show "t \<in> cells_above e F k \<union> (\<lambda>u. \<lparr>eggs = e, lb = k, ub = u\<rparr>) ` set [k + 1..F + 1]"
  proof (cases "k < lb t")
    case True
    with t show ?thesis by (simp add: cells_above_def)
  next
    case False
    with t have "lb t = k" "eggs t = e" "k + 1 \<le> ub t" "ub t \<le> F + 1"
      by (simp_all add: cells_above_def)
    then have "t = \<lparr>eggs = e, lb = k, ub = ub t\<rparr>" "ub t \<in> set [k + 1..F + 1]" by simp_all
    then have "t \<in> (\<lambda>u. \<lparr>eggs = e, lb = k, ub = u\<rparr>) ` set [k + 1..F + 1]" by (rule image_eqI)
    then show ?thesis by simp
  qed
qed

lemma outer_loop:
  assumes e: "1 \<le> e" "e \<le> E"
  shows "- 1 \<le> k \<Longrightarrow> level_inv tb F E e V A (cells_below e F \<union> cells_above e F k) \<Longrightarrow>
         \<exists>V' A' i' m'.
           foldM (\<lambda>l. foldM (\<lambda>u. scan_cell tb \<lparr>eggs = e, lb = l, ub = u\<rparr>) [l + 1..F + 1])
                 (rev [0..k]) (V, A, i, m) = Some (Inr (V', A', i', m')) \<and>
           level_inv tb F E e V' A' (cells_below e F \<union> cells_above e F (- 1))"
proof (induction "nat (k + 1)" arbitrary: k V A i m)
  case 0
  then have "k = - 1" by simp
  with "0.prems"(2) show ?case by simp
next
  case (Suc n)
  then have k: "0 \<le> k" by simp
  have c2: "\<forall>t\<in>cells_below e F \<union> cells_above e F k. eggs t < e \<or> (eggs t = e \<and> k \<le> lb t)"
    by (auto simp: cells_above_def cells_below_def)
  have c3: "\<forall>a u. k < a \<and> a < u \<and> u \<le> F + 1 \<longrightarrow>
              \<lparr>eggs = e, lb = a, ub = u\<rparr> \<in> cells_below e F \<union> cells_above e F k"
    by (simp add: cells_above_def)
  have c4: "\<forall>u\<in>set [k + 1..F + 1]. k < u \<and> u \<le> F + 1" by simp
  from inner_loop[OF e k Suc.prems(2) c2 c3 c4, of i m] obtain V1 A1 i1 m1 where
    r1: "foldM (\<lambda>u. scan_cell tb \<lparr>eggs = e, lb = k, ub = u\<rparr>) [k + 1..F + 1] (V, A, i, m)
           = Some (Inr (V1, A1, i1, m1))"
    and li: "level_inv tb F E e V1 A1
               (cells_below e F \<union> cells_above e F k \<union>
                (\<lambda>u. \<lparr>eggs = e, lb = k, ub = u\<rparr>) ` set [k + 1..F + 1])"
    by blast
  from li have li': "level_inv tb F E e V1 A1 (cells_below e F \<union> cells_above e F (k - 1))"
    by (simp only: Un_assoc cells_above_step[OF k])
  have n: "n = nat (k - 1 + 1)" using Suc.hyps(2) by simp
  have km: "- 1 \<le> k - 1" using k by simp
  from Suc.hyps(1)[OF n km li', of i1 m1] obtain V' A' i' m' where
    r2: "foldM (\<lambda>l. foldM (\<lambda>u. scan_cell tb \<lparr>eggs = e, lb = l, ub = u\<rparr>) [l + 1..F + 1])
                 (rev [0..k - 1]) (V1, A1, i1, m1) = Some (Inr (V', A', i', m'))"
    and li2: "level_inv tb F E e V' A' (cells_below e F \<union> cells_above e F (- 1))" by blast
  have "rev [0..k] = k # rev [0..k - 1]" using k by (subst upto_rec2) simp_all
  then have "foldM (\<lambda>l. foldM (\<lambda>u. scan_cell tb \<lparr>eggs = e, lb = l, ub = u\<rparr>) [l + 1..F + 1])
                 (rev [0..k]) (V, A, i, m) = Some (Inr (V', A', i', m'))"
    using r1 r2 by simp
  with li2 show ?case by blast
qed

section \<open>Convergence of a level and of the builder\<close>

lemma cells_above_top: "cells_above e F F = {}"
  by (auto simp: cells_above_def)

lemma single_scan_level:
  assumes li0: "level_inv tb F E e V A (cells_below e F)" and e: "1 \<le> e" "e \<le> E" and F: "0 \<le> F"
  shows "\<exists>V' A' i' m'. single_scan F e e tb (V, A, i, m) = Some (Inr (V', A', i', m')) \<and>
           level_inv tb F E e V' A' (cells_below e F \<union> cells_above e F (- 1))"
proof -
  have li: "level_inv tb F E e V A (cells_below e F \<union> cells_above e F F)"
    using li0 by (simp add: cells_above_top)
  have k: "- 1 \<le> F" using F by simp
  from outer_loop[OF e k li, of i m] obtain V' A' i' m' where
    r: "foldM (\<lambda>l. foldM (\<lambda>u. scan_cell tb \<lparr>eggs = e, lb = l, ub = u\<rparr>) [l + 1..F + 1])
                 (rev [0..F]) (V, A, i, m) = Some (Inr (V', A', i', m'))"
    and li': "level_inv tb F E e V' A' (cells_below e F \<union> cells_above e F (- 1))" by blast
  have "[e..e] = [e]" by (simp add: upto.simps)
  then have "single_scan F e e tb (V, A, i, m) = Some (Inr (V', A', i', m'))"
    using r by (simp add: single_scan_def)
  with li' show ?thesis by blast
qed

lemma single_scan_fixed:
  assumes ok: "\<forall>t. Emin \<le> eggs t \<and> eggs t \<le> Emax \<and> 0 \<le> lb t \<and> lb t < ub t \<and> ub t \<le> F + 1 \<longrightarrow>
                 cell_ok tb V A t"
  shows "single_scan F Emin Emax tb (V, A, 0, 0) = Some (Inr (V, A, 0, 0))"
  unfolding single_scan_def
proof (rule foldM_unchanged)
  fix e assume e: "e \<in> set [Emin..Emax]"
  show "foldM (\<lambda>l. foldM (\<lambda>u. scan_cell tb \<lparr>eggs = e, lb = l, ub = u\<rparr>) [l + 1..F + 1])
                 (rev [0..F]) (V, A, 0, 0) = Some (Inr (V, A, 0, 0))"
  proof (rule foldM_unchanged)
    fix l assume l: "l \<in> set (rev [0..F])"
    show "foldM (\<lambda>u. scan_cell tb \<lparr>eggs = e, lb = l, ub = u\<rparr>) [l + 1..F + 1] (V, A, 0, 0)
        = Some (Inr (V, A, 0, 0))"
    proof (rule foldM_unchanged)
      fix u assume "u \<in> set [l + 1..F + 1]"
      with e l ok have "cell_ok tb V A \<lparr>eggs = e, lb = l, ub = u\<rparr>" by simp
      then show "scan_cell tb \<lparr>eggs = e, lb = l, ub = u\<rparr> (V, A, 0, 0) = Some (Inr (V, A, 0, 0))"
        by (rule cell_ok_unchanged)
    qed
  qed
qed

lemma cells_below_step:
  "1 \<le> e \<Longrightarrow> cells_below e F \<union> cells_above e F (- 1) = cells_below (e + 1) F"
  by (auto simp: cells_below_def cells_above_def)

lemma level_loop_returns:
  assumes li0: "level_inv tb F E e V A (cells_below e F)" and e: "1 \<le> e" "e \<le> E" and F: "0 \<le> F"
  shows "\<exists>V' A' n. level_loop F e tb s (V, A) = Some (Inr ((V', A'), n)) \<and>
           level_inv tb F E e V' A' (cells_below (e + 1) F) \<and> (n = s + 1 \<or> n = s + 2)"
proof -
  from single_scan_level[OF li0 e F, of 0 0] obtain V1 A1 i1 m1 where
    s1: "single_scan F e e tb (V, A, 0, 0) = Some (Inr (V1, A1, i1, m1))"
    and li1: "level_inv tb F E e V1 A1 (cells_below e F \<union> cells_above e F (- 1))" by blast
  from li1 have li: "level_inv tb F E e V1 A1 (cells_below (e + 1) F)"
    by (simp only: cells_below_step[OF e(1)])
  have fixed: "single_scan F e e tb (V1, A1, 0, 0) = Some (Inr (V1, A1, 0, 0))"
  proof (rule single_scan_fixed, intro allI impI)
    fix t :: tState assume "e \<le> eggs t \<and> eggs t \<le> e \<and> 0 \<le> lb t \<and> lb t < ub t \<and> ub t \<le> F + 1"
    with e(1) have "t \<in> cells_below (e + 1) F" by (simp add: cells_below_def)
    with li show "cell_ok tb V1 A1 t" by (simp add: level_inv_def)
  qed
  show ?thesis
  proof (cases "i1 = 0 \<and> m1 = 0")
    case True
    with s1 have "level_loop F e tb s (V, A) = Some (Inr ((V1, A1), s + 1))"
      by (subst level_loop.simps) simp
    with li show ?thesis by blast
  next
    case False
    with s1 have "level_loop F e tb s (V, A) = level_loop F e tb (s + 1) (V1, A1)"
      by (subst level_loop.simps) auto
    also have "\<dots> = Some (Inr ((V1, A1), s + 1 + 1))"
      using fixed by (subst level_loop.simps) simp
    finally show ?thesis using li by auto
  qed
qed

lemma level_complete:
  assumes li: "level_inv tb F E e V A (cells_below (e + 1) F)"
  shows "tables_inv F E (e + 1) V A"
proof -
  from li have inv: "tables_inv F E e V A" and ok: "\<forall>t\<in>cells_below (e + 1) F. cell_ok tb V A t"
    by (simp_all add: level_inv_def)
  have new: "\<forall>s. wf_state F E s \<and> 1 \<le> eggs s \<and> eggs s < e + 1 \<longrightarrow> V s \<noteq> None"
  proof (intro allI impI)
    fix s assume s: "wf_state F E s \<and> 1 \<le> eggs s \<and> eggs s < e + 1"
    show "V s \<noteq> None"
    proof (cases "eggs s < e")
      case True
      with s inv show ?thesis unfolding tables_inv_def by blast
    next
      case False
      with s have "s \<in> cells_below (e + 1) F" by (simp add: cells_below_def wf_state_def)
      with ok have "cell_ok tb V A s" by blast
      then show ?thesis by (rule cell_ok_present)
    qed
  qed
  have old: "\<forall>s v. V s = Some v \<longrightarrow>
         wf_state F E s \<and> v = val_of s \<and> (ub s \<noteq> lb s + 1 \<longrightarrow> 1 \<le> eggs s \<and> eggs s \<le> e + 1)"
  proof (intro allI impI)
    fix s v assume "V s = Some v"
    with inv have "wf_state F E s \<and> v = val_of s \<and> (ub s \<noteq> lb s + 1 \<longrightarrow> 1 \<le> eggs s \<and> eggs s \<le> e)"
      unfolding tables_inv_def by blast
    then show "wf_state F E s \<and> v = val_of s \<and> (ub s \<noteq> lb s + 1 \<longrightarrow> 1 \<le> eggs s \<and> eggs s \<le> e + 1)"
      by auto
  qed
  from inv have rest: "(\<forall>s. wf_state F E s \<and> ub s = lb s + 1 \<longrightarrow> V s \<noteq> None)"
    "(\<forall>s a. A s = Some a \<longrightarrow>
         V s \<noteq> None \<and> ub s \<noteq> lb s + 1 \<and> lb s < a \<and> a < ub s \<and>
         V \<lparr>eggs = eggs s - 1, lb = lb s, ub = a\<rparr> \<noteq> None \<and>
         V \<lparr>eggs = eggs s, lb = a, ub = ub s\<rparr> \<noteq> None \<and>
         val_of s = 1 + max (val_of \<lparr>eggs = eggs s - 1, lb = lb s, ub = a\<rparr>)
                            (val_of \<lparr>eggs = eggs s, lb = a, ub = ub s\<rparr>))"
    "(\<forall>s. V s \<noteq> None \<and> ub s \<noteq> lb s + 1 \<longrightarrow> A s \<noteq> None)"
    unfolding tables_inv_def by blast+
  from old rest(1) new rest(2,3) show ?thesis unfolding tables_inv_def by (intro conjI)
qed

text \<open>The table that \<open>initialize_terminal_entries\<close> builds from the empty one.\<close>

lemma init_inner:
  "fold (\<lambda>f V'. map_insert V' \<lparr>eggs = e, lb = f, ub = f + 1\<rparr> 0) fs V =
     (\<lambda>s. case V s of
             Some v \<Rightarrow> Some v
           | None \<Rightarrow> if eggs s = e \<and> lb s \<in> set fs \<and> ub s = lb s + 1 then Some 0 else None)"
proof (induction fs arbitrary: V)
  case Nil
  then show ?case by (auto split: option.splits)
next
  case (Cons f fs)
  show ?case
    unfolding fold_simps Cons.IH
    by (rule ext) (auto simp: map_insert_def split: option.splits)
qed

lemma init_outer:
  "fold (\<lambda>e. fold (\<lambda>f V'. map_insert V' \<lparr>eggs = e, lb = f, ub = f + 1\<rparr> 0) fs) es V =
     (\<lambda>s. case V s of
             Some v \<Rightarrow> Some v
           | None \<Rightarrow> if eggs s \<in> set es \<and> lb s \<in> set fs \<and> ub s = lb s + 1 then Some 0 else None)"
proof (induction es arbitrary: V)
  case Nil
  then show ?case by (auto split: option.splits)
next
  case (Cons e es)
  let ?H = "\<lambda>e. fold (\<lambda>f V'. map_insert V' \<lparr>eggs = e, lb = f, ub = f + 1\<rparr> 0) fs"
  have "fold ?H (e # es) V = fold ?H es (?H e V)" by simp
  also have "\<dots> = (\<lambda>s. case ?H e V s of
             Some v \<Rightarrow> Some v
           | None \<Rightarrow> if eggs s \<in> set es \<and> lb s \<in> set fs \<and> ub s = lb s + 1 then Some 0 else None)"
    by (rule Cons.IH)
  also have "\<dots> = (\<lambda>s. case V s of
             Some v \<Rightarrow> Some v
           | None \<Rightarrow> if eggs s \<in> set (e # es) \<and> lb s \<in> set fs \<and> ub s = lb s + 1
                     then Some 0 else None)"
    by (rule ext) (auto simp: init_inner split: option.splits)
  finally show ?case .
qed

lemma initialize_terminal_entries_eq:
  "initialize_terminal_entries F E Map.empty =
     (\<lambda>s. if 0 \<le> eggs s \<and> eggs s \<le> E \<and> 0 \<le> lb s \<and> lb s \<le> F \<and> ub s = lb s + 1
           then Some 0 else None)"
  unfolding initialize_terminal_entries_def init_outer by (rule ext) simp

lemma tables_inv_init:
  "tables_inv F E 1 (initialize_terminal_entries F E Map.empty) Map.empty"
  unfolding tables_inv_def initialize_terminal_entries_eq
  by (auto simp: wf_state_def val_of_terminal split: if_splits)

lemma build_levels:
  assumes F: "0 \<le> F"
  shows "1 \<le> e \<Longrightarrow> e \<le> E + 1 \<Longrightarrow> level_inv tb F E e V A (cells_below e F) \<Longrightarrow>
     \<exists>V' A' ns. foldM (\<lambda>e (VA, scans).
                         case level_loop F e tb 0 VA of
                           None \<Rightarrow> None
                         | Some (Inl x) \<Rightarrow> Some (Inl x)
                         | Some (Inr (VA', n)) \<Rightarrow> Some (Inr (VA', scans @ [n])))
                [e..E] ((V, A), scans) = Some (Inr ((V', A'), scans @ ns)) \<and>
              level_inv tb F E (E + 1) V' A' (cells_below (E + 1) F) \<and>
              int (length ns) = E + 1 - e \<and> (\<forall>n\<in>set ns. n = 1 \<or> n = 2)"
proof (induction "nat (E + 1 - e)" arbitrary: e V A scans)
  case 0
  then have "e = E + 1" by simp
  with "0.prems"(3) show ?case by simp
next
  case (Suc k)
  then have e: "1 \<le> e" "e \<le> E" by simp_all
  from level_loop_returns[OF Suc.prems(3) e F, of 0] obtain V1 A1 n where
    r: "level_loop F e tb 0 (V, A) = Some (Inr ((V1, A1), n))"
    and li: "level_inv tb F E e V1 A1 (cells_below (e + 1) F)"
    and n: "n = 1 \<or> n = 2" by auto
  from li level_complete[OF li] have li': "level_inv tb F E (e + 1) V1 A1 (cells_below (e + 1) F)"
    by (simp add: level_inv_def)
  have k: "k = nat (E + 1 - (e + 1))" using Suc.hyps(2) by simp
  have e': "1 \<le> e + 1" "e + 1 \<le> E + 1" using e by simp_all
  from Suc.hyps(1)[OF k e' li', of "scans @ [n]"] obtain V' A' ns where
    r2: "foldM (\<lambda>e (VA, scans).
                         case level_loop F e tb 0 VA of
                           None \<Rightarrow> None
                         | Some (Inl x) \<Rightarrow> Some (Inl x)
                         | Some (Inr (VA', n)) \<Rightarrow> Some (Inr (VA', scans @ [n])))
                [e + 1..E] ((V1, A1), scans @ [n]) = Some (Inr ((V', A'), (scans @ [n]) @ ns))"
    and inv': "level_inv tb F E (E + 1) V' A' (cells_below (E + 1) F)"
    and len: "int (length ns) = E + 1 - (e + 1)" and ns: "\<forall>n\<in>set ns. n = 1 \<or> n = 2" by blast
  have "[e..E] = e # [e + 1..E]" using e by (subst upto_rec1) simp_all
  with r r2 have "foldM (\<lambda>e (VA, scans).
                         case level_loop F e tb 0 VA of
                           None \<Rightarrow> None
                         | Some (Inl x) \<Rightarrow> Some (Inl x)
                         | Some (Inr (VA', n)) \<Rightarrow> Some (Inr (VA', scans @ [n])))
                [e..E] ((V, A), scans) = Some (Inr ((V', A'), scans @ (n # ns)))" by simp
  moreover have "int (length (n # ns)) = E + 1 - e" using len by simp
  moreover have "\<forall>x\<in>set (n # ns). x = 1 \<or> x = 2" using n ns by simp
  ultimately show ?case using inv' by blast
qed

lemma level_inv_init:
  "level_inv tb F E 1 (initialize_terminal_entries F E Map.empty) Map.empty (cells_below 1 F)"
  by (auto simp: level_inv_def cells_below_def tables_inv_init)

lemma build_tables_returns:
  assumes "0 \<le> F" "0 \<le> E"
  shows "\<exists>V A ns. build_tables F E tb = Some (Inr ((V, A), ns)) \<and> tables_inv F E (E + 1) V A \<and>
           int (length ns) = E \<and> (\<forall>n\<in>set ns. n = 1 \<or> n = 2) \<and>
           (\<forall>t\<in>cells_below (E + 1) F. cell_ok tb V A t)"
  unfolding build_tables_def
  using build_levels[where e = 1 and E = E and tb = tb and scans = "[]", OF assms(1) _ _ level_inv_init]
    assms(2)
  by (simp add: level_inv_def) blast

text \<open>A further scan of any range of levels leaves the tables of the builder as they are.\<close>

lemma final_scan_fixed:
  assumes ok: "\<forall>t\<in>cells_below (E + 1) F. cell_ok tb V A t" and r: "1 \<le> Emin" "Emax \<le> E"
  shows "single_scan F Emin Emax tb (V, A, 0, 0) = Some (Inr (V, A, 0, 0))"
proof (rule single_scan_fixed, intro allI impI)
  fix t :: tState
  assume "Emin \<le> eggs t \<and> eggs t \<le> Emax \<and> 0 \<le> lb t \<and> lb t < ub t \<and> ub t \<le> F + 1"
  with r have "t \<in> cells_below (E + 1) F" by (simp add: cells_below_def)
  with ok show "cell_ok tb V A t" by blast
qed
section \<open>The converged tables\<close>

lemma final_entry:
  assumes inv: "tables_inv F E (E + 1) V A" and r: "1 \<le> e" "e \<le> E" "0 \<le> l" "l < u" "u \<le> F + 1"
  shows "V \<lparr>eggs = e, lb = l, ub = u\<rparr> = Some (val_of \<lparr>eggs = e, lb = l, ub = u\<rparr>)"
proof -
  have "wf_state F E \<lparr>eggs = e, lb = l, ub = u\<rparr>" using r by (simp add: wf_state_def)
  with inv r have "V \<lparr>eggs = e, lb = l, ub = u\<rparr> \<noteq> None" unfolding tables_inv_def by simp
  from inv_present(2)[OF inv this] show ?thesis .
qed

lemma final_terminal:
  assumes inv: "tables_inv F E e' V A" and r: "0 \<le> e" "e \<le> E" "0 \<le> f" "f \<le> F"
  shows "V \<lparr>eggs = e, lb = f, ub = f + 1\<rparr> = Some 0"
proof -
  have "wf_state F E \<lparr>eggs = e, lb = f, ub = f + 1\<rparr>" using r by (simp add: wf_state_def)
  with inv have "V \<lparr>eggs = e, lb = f, ub = f + 1\<rparr> \<noteq> None" unfolding tables_inv_def by simp
  from inv_present(2)[OF inv this] show ?thesis by (simp add: val_of_terminal)
qed

lemma val_of_mono_eggs:
  "1 \<le> e \<Longrightarrow> e \<le> e' \<Longrightarrow>
   val_of \<lparr>eggs = e', lb = l, ub = u\<rparr> \<le> val_of \<lparr>eggs = e, lb = l, ub = u\<rparr>"
  unfolding val_of_def by (simp add: mindrops_mono_e)

lemma val_of_mono_width:
  "1 \<le> e \<Longrightarrow> u - l \<le> u' - l' \<Longrightarrow>
   val_of \<lparr>eggs = e, lb = l, ub = u\<rparr> \<le> val_of \<lparr>eggs = e, lb = l', ub = u'\<rparr>"
  unfolding val_of_def by (simp add: mindrops_mono_n)

text \<open>A scan never removes an entry and never raises a stored value.\<close>

lemma tables_grow_refl: "tables_grow \<sigma> \<sigma>"
  by (simp add: tables_grow_def)

lemma tables_grow_trans: "tables_grow \<sigma> \<sigma>' \<Longrightarrow> tables_grow \<sigma>' \<sigma>'' \<Longrightarrow> tables_grow \<sigma> \<sigma>''"
  unfolding tables_grow_def by (meson order_trans)

lemma scan_cell_grows:
  assumes "scan_cell tb t \<sigma> = Some (Inr \<sigma>')"
  shows "tables_grow \<sigma> \<sigma>'"
proof -
  obtain V A i m where s: "\<sigma> = (V, A, i, m)" by (cases \<sigma>) auto
  obtain acts vals where f: "find_admissible_actions t V [] [] True = (acts, vals)"
    by (cases "find_admissible_actions t V [] [] True") auto
  show ?thesis
  proof (cases "(V t \<noteq> None \<and> isterminal t) \<or> vals = []")
    case True
    with assms s f have "\<sigma>' = \<sigma>" by (auto simp: scan_cell_def split: if_splits)
    then show ?thesis by (simp add: tables_grow_refl)
  next
    case False
    then have c: "\<not> (V t \<noteq> None \<and> isterminal t)" "vals \<noteq> []" by simp_all
    from assms s f c obtain v a where sel: "select_action tb t A acts vals = Some (Inr (v, a))"
      by (auto simp: scan_cell_def split: option.splits sum.splits)
    show ?thesis
    proof (cases "V t")
      case None
      with assms s f c sel have "\<sigma>' = (V(t \<mapsto> v), map_insert A t a, i + 1, m)"
        by (simp add: scan_cell_def map_insert_def)
      with s None show ?thesis by (auto simp: tables_grow_def map_insert_def split: option.splits)
    next
      case (Some st)
      with assms s f c sel have "\<sigma>' = \<sigma> \<or> (v \<le> st \<and> A t \<noteq> None \<and> \<sigma>' = (V(t \<mapsto> v), A(t \<mapsto> a), i, m + 1))"
        by (auto simp: scan_cell_def split: option.splits if_splits)
      then show ?thesis
      proof
        assume "\<sigma>' = \<sigma>" then show ?thesis by (simp add: tables_grow_refl)
      next
        assume "v \<le> st \<and> A t \<noteq> None \<and> \<sigma>' = (V(t \<mapsto> v), A(t \<mapsto> a), i, m + 1)"
        with s Some show ?thesis by (auto simp: tables_grow_def)
      qed
    qed
  qed
qed

lemma foldM_grows:
  assumes "\<And>x \<sigma> \<sigma>'. f x \<sigma> = Some (Inr \<sigma>') \<Longrightarrow> tables_grow \<sigma> \<sigma>'"
  shows "foldM f xs \<sigma> = Some (Inr \<sigma>') \<Longrightarrow> tables_grow \<sigma> \<sigma>'"
proof (induction xs arbitrary: \<sigma>)
  case Nil
  then show ?case by (simp add: tables_grow_refl)
next
  case (Cons x xs)
  from Cons.prems obtain \<sigma>1 where 1: "f x \<sigma> = Some (Inr \<sigma>1)" and 2: "foldM f xs \<sigma>1 = Some (Inr \<sigma>')"
    by (auto split: option.splits sum.splits)
  from assms[OF 1] Cons.IH[OF 2] show ?case by (rule tables_grow_trans)
qed

lemma single_scan_grows:
  "single_scan F Emin Emax tb \<sigma> = Some (Inr \<sigma>') \<Longrightarrow> tables_grow \<sigma> \<sigma>'"
  unfolding single_scan_def
  by (erule foldM_grows[rotated], erule foldM_grows[rotated], erule foldM_grows[rotated])
     (rule scan_cell_grows)

section \<open>Checking the policy\<close>

lemma bump_all_returns:
  "\<forall>a\<in>set tr. 0 \<le> a \<and> a < int (length D) \<Longrightarrow>
   \<exists>D'. bump_all D tr = Some (Inr D') \<and> length D' = length D"
proof (induction tr arbitrary: D)
  case Nil
  then show ?case by simp
next
  case (Cons a tr)
  let ?D1 = "D[nat a := D ! nat a + 1]"
  have "\<forall>b\<in>set tr. 0 \<le> b \<and> b < int (length ?D1)" using Cons.prems by simp
  from Cons.IH[OF this] obtain D' where "bump_all ?D1 tr = Some (Inr D')" "length D' = length ?D1"
    by blast
  with Cons.prems show ?case by simp
qed

lemma run_policy_once_returns:
  assumes inv: "tables_inv F E (E + 1) V A" and r: "1 \<le> e" "e \<le> E" "0 \<le> F"
  shows "\<exists>k tr. run_policy_once F e L A = Some (Inr (k, tr)) \<and> 0 \<le> k \<and>
           k \<le> val_of \<lparr>eggs = e, lb = 0, ub = F + 1\<rparr> \<and> int (length tr) = k \<and>
           (\<forall>a\<in>set tr. 0 < a \<and> a < F + 1)"
proof -
  let ?s = "\<lparr>eggs = e, lb = 0, ub = F + 1\<rparr>"
  have "V ?s \<noteq> None" using final_entry[OF inv r(1,2), of 0 "F + 1"] r(3) by simp
  from policy_loop_returns[OF inv this, of L 0 "[]"] show ?thesis
    by (simp add: run_policy_once_def)
qed

lemma run_policy_once_attains:
  assumes inv: "tables_inv F E (E + 1) V A" and r: "1 \<le> e" "e \<le> E" "0 \<le> F"
  shows "\<exists>L tr. 0 \<le> L \<and> L \<le> F \<and>
           run_policy_once F e L A = Some (Inr (val_of \<lparr>eggs = e, lb = 0, ub = F + 1\<rparr>, tr))"
proof -
  let ?s = "\<lparr>eggs = e, lb = 0, ub = F + 1\<rparr>"
  have "V ?s \<noteq> None" using final_entry[OF inv r(1,2), of 0 "F + 1"] r(3) by simp
  from policy_loop_attains[OF inv this, of 0 "[]"] obtain L tr where
    "lb ?s \<le> L" "L < ub ?s" "policy_loop A L ?s 0 [] = Some (Inr (0 + val_of ?s, [] @ tr))"
    by blast
  then show ?thesis by (intro exI[of _ L] exI[of _ tr]) (simp add: run_policy_once_def)
qed

lemma check_steps:
  assumes inv: "tables_inv F E (E + 1) V A" and r: "1 \<le> e" "e \<le> E" "0 \<le> F"
  shows "wantD \<longrightarrow> int (length D) = F + 1 \<Longrightarrow>
     \<exists>m' sm' D' H'. foldM (check_step F e A wantD wantH) ls (m, sm, D, H) = Some (Inr (m', sm', D', H')) \<and>
        m \<le> m' \<and> m' \<le> max m (val_of \<lparr>eggs = e, lb = 0, ub = F + 1\<rparr>) \<and>
        ((\<exists>l\<in>set ls. \<exists>tr. run_policy_once F e l A
              = Some (Inr (val_of \<lparr>eggs = e, lb = 0, ub = F + 1\<rparr>, tr)))
           \<longrightarrow> val_of \<lparr>eggs = e, lb = 0, ub = F + 1\<rparr> \<le> m')"
proof (induction ls arbitrary: m sm D H)
  case Nil
  then show ?case by simp
next
  case (Cons l ls)
  let ?v = "val_of \<lparr>eggs = e, lb = 0, ub = F + 1\<rparr>"
  from run_policy_once_returns[OF inv r, of l] obtain k tr where
    run: "run_policy_once F e l A = Some (Inr (k, tr))" and k: "0 \<le> k" "k \<le> ?v"
    and tr: "\<forall>a\<in>set tr. 0 < a \<and> a < F + 1" by blast
  define m1 where "m1 = (if k > m then k else m)"
  define H1 where "H1 = (if wantH then H(k \<mapsto> (case H k of None \<Rightarrow> 0 | Some c \<Rightarrow> c) + 1) else H)"
  have "\<exists>D1. check_step F e A wantD wantH l (m, sm, D, H) = Some (Inr (m1, sm + k, D1, H1)) \<and>
             (wantD \<longrightarrow> int (length D1) = F + 1)"
  proof (cases wantD)
    case False
    with run show ?thesis by (simp add: check_step_def m1_def H1_def)
  next
    case True
    with Cons.prems have len: "int (length D) = F + 1" by simp
    with tr have "\<forall>a\<in>set tr. 0 \<le> a \<and> a < int (length D)" by auto
    from bump_all_returns[OF this] obtain D1 where "bump_all D tr = Some (Inr D1)"
      "length D1 = length D" by blast
    with run True len show ?thesis by (simp add: check_step_def m1_def H1_def)
  qed
  then obtain D1 where step: "check_step F e A wantD wantH l (m, sm, D, H) = Some (Inr (m1, sm + k, D1, H1))"
    and len1: "wantD \<longrightarrow> int (length D1) = F + 1" by blast
  from Cons.IH[OF len1, of m1 "sm + k" H1] obtain m' sm' D' H' where
    rest: "foldM (check_step F e A wantD wantH) ls (m1, sm + k, D1, H1) = Some (Inr (m', sm', D', H'))"
    and b: "m1 \<le> m'" "m' \<le> max m1 ?v"
    and att: "(\<exists>l\<in>set ls. \<exists>tr. run_policy_once F e l A = Some (Inr (?v, tr))) \<longrightarrow> ?v \<le> m'"
    by blast
  have "foldM (check_step F e A wantD wantH) (l # ls) (m, sm, D, H) = Some (Inr (m', sm', D', H'))"
    using step rest by simp
  moreover have "m \<le> m'" using b(1) by (simp add: m1_def split: if_splits)
  moreover have "m' \<le> max m ?v" using b(2) k(2) by (simp add: m1_def split: if_splits)
  moreover have "(\<exists>l\<in>set (l # ls). \<exists>tr. run_policy_once F e l A = Some (Inr (?v, tr))) \<longrightarrow> ?v \<le> m'"
  proof
    assume "\<exists>l\<in>set (l # ls). \<exists>tr. run_policy_once F e l A = Some (Inr (?v, tr))"
    then have "(\<exists>tr. run_policy_once F e l A = Some (Inr (?v, tr))) \<or>
               (\<exists>l\<in>set ls. \<exists>tr. run_policy_once F e l A = Some (Inr (?v, tr)))" by simp
    then show "?v \<le> m'"
    proof
      assume "\<exists>tr. run_policy_once F e l A = Some (Inr (?v, tr))"
      with run have "k = ?v" by auto
      then have "?v \<le> m1" by (simp add: m1_def)
      with b(1) show ?thesis by simp
    next
      assume "\<exists>l\<in>set ls. \<exists>tr. run_policy_once F e l A = Some (Inr (?v, tr))"
      with att show ?thesis by blast
    qed
  qed
  ultimately show ?case by blast
qed

lemma check_policy_ok:
  assumes inv: "tables_inv F E (E + 1) V A" and r: "1 \<le> e" "e \<le> E" "0 \<le> F"
  shows "\<exists>sm D H. check_policy F e V A wantD wantH
           = Some (Inr (True, val_of \<lparr>eggs = e, lb = 0, ub = F + 1\<rparr>, sm, D, H))"
proof -
  let ?s = "\<lparr>eggs = e, lb = 0, ub = F + 1\<rparr>"
  let ?D0 = "if wantD then map (\<lambda>l. 0::int) [0..F] else []"
  have nominal: "V ?s = Some (val_of ?s)" using final_entry[OF inv r(1,2), of 0 "F + 1"] r(3) by simp
  have len: "wantD \<longrightarrow> int (length ?D0) = F + 1" using r(3) by simp
  from check_steps[OF inv r len, of wantH "[0..F]" 0 0 Map.empty] obtain m' sm' D' H' where
    f: "foldM (check_step F e A wantD wantH) [0..F] (0, 0, ?D0, Map.empty) = Some (Inr (m', sm', D', H'))"
    and b: "m' \<le> max 0 (val_of ?s)"
    and att: "(\<exists>l\<in>set [0..F]. \<exists>tr. run_policy_once F e l A = Some (Inr (val_of ?s, tr)))
                \<longrightarrow> val_of ?s \<le> m'" by blast
  from run_policy_once_attains[OF inv r] have "\<exists>l\<in>set [0..F]. \<exists>tr. run_policy_once F e l A = Some (Inr (val_of ?s, tr))"
    by auto
  with att have "val_of ?s \<le> m'" by blast
  with b val_of_nonneg[of ?s] have "m' = val_of ?s" by simp
  with f nominal show ?thesis by (simp add: check_policy_def Let_def)
qed

section \<open>One egg; the optimality equation on the converged tables\<close>

text \<open>With one egg the stored action is the floor just above the lower bound.\<close>

lemma one_egg_action:
  assumes inv: "tables_inv F E (E + 1) V A" and E: "1 \<le> E"
    and r: "0 \<le> l" "l + 2 \<le> u" "u \<le> F + 1"
  shows "A \<lparr>eggs = 1, lb = l, ub = u\<rparr> = Some (l + 1)"
proof -
  let ?s = "\<lparr>eggs = 1, lb = l, ub = u\<rparr>"
  have pres: "V ?s \<noteq> None" using final_entry[where e=1, OF inv _ E r(1) _ r(3)] r(2) by simp
  have nt: "\<not> isterminal ?s" using r(2) by (simp add: isterminal_def)
  from inv_action[OF inv pres nt] obtain a where a: "A ?s = Some a" "lb ?s < a" "a < ub ?s"
      "V \<lparr>eggs = eggs ?s - 1, lb = lb ?s, ub = a\<rparr> \<noteq> None" by blast
  from a(4) obtain v where "V \<lparr>eggs = 0, lb = l, ub = a\<rparr> = Some v" by auto
  with inv have "ub \<lparr>eggs = 0, lb = l, ub = a\<rparr> \<noteq> lb \<lparr>eggs = 0, lb = l, ub = a\<rparr> + 1
                  \<longrightarrow> 1 \<le> eggs \<lparr>eggs = 0, lb = l, ub = a\<rparr>"
    unfolding tables_inv_def by blast
  then have "a = l + 1" by simp
  with a(1) show ?thesis by simp
qed

lemma one_egg_run:
  assumes inv: "tables_inv F E (E + 1) V A" and E: "1 \<le> E"
  shows "0 \<le> l \<Longrightarrow> l \<le> L \<Longrightarrow> L \<le> F \<Longrightarrow>
         policy_loop A L \<lparr>eggs = 1, lb = l, ub = F + 1\<rparr> n xs =
           Some (Inr (n + (min (L + 1) F - l), xs @ [l + 1..min (L + 1) F]))"
proof (induction "nat (F - l)" arbitrary: l n xs)
  case 0
  then have l: "l = F" "L = F" by simp_all
  then have "isterminal \<lparr>eggs = 1, lb = l, ub = F + 1\<rparr>" using "0.prems"(1) by (simp add: isterminal_def)
  then show ?case using l by (subst policy_loop.simps) simp
next
  case (Suc k)
  then have lF: "l < F" by simp
  let ?s = "\<lparr>eggs = 1, lb = l, ub = F + 1\<rparr>"
  have nt: "\<not> isterminal ?s" using lF by (simp add: isterminal_def)
  have act: "A ?s = Some (l + 1)" using one_egg_action[OF inv E Suc.prems(1), of "F + 1"] lF by simp
  show ?case
  proof (cases "L = l")
    case True
    then have nx: "next_state ?s (l + 1) L = \<lparr>eggs = 0, lb = l, ub = l + 1\<rparr>"
      using lF by (simp add: next_state_eq)
    have "isterminal \<lparr>eggs = 0, lb = l, ub = l + 1\<rparr>" using Suc.prems(1) by (simp add: isterminal_def)
    then have "policy_loop A L \<lparr>eggs = 0, lb = l, ub = l + 1\<rparr> (n + 1) (xs @ [l + 1])
                 = Some (Inr (n + 1, xs @ [l + 1]))"
      by (subst policy_loop.simps) simp
    then have "policy_loop A L ?s n xs = Some (Inr (n + 1, xs @ [l + 1]))"
      using nt act nx by (subst policy_loop.simps) (simp add: eggdrop_next_state)
    moreover have "min (L + 1) F = l + 1" using True lF by simp
    ultimately show ?thesis by (simp add: upto.simps)
  next
    case False
    with Suc.prems have lL: "l + 1 \<le> L" by simp
    then have nx: "next_state ?s (l + 1) L = \<lparr>eggs = 1, lb = l + 1, ub = F + 1\<rparr>"
      by (simp add: next_state_eq)
    have k: "k = nat (F - (l + 1))" using Suc.hyps(2) by simp
    have "0 \<le> l + 1" using Suc.prems(1) by simp
    from Suc.hyps(1)[OF k this lL Suc.prems(3), of "n + 1" "xs @ [l + 1]"]
    have ih: "policy_loop A L \<lparr>eggs = 1, lb = l + 1, ub = F + 1\<rparr> (n + 1) (xs @ [l + 1]) =
               Some (Inr (n + 1 + (min (L + 1) F - (l + 1)), (xs @ [l + 1]) @ [l + 1 + 1..min (L + 1) F]))" .
    have "policy_loop A L ?s n xs =
            Some (Inr (n + 1 + (min (L + 1) F - (l + 1)), (xs @ [l + 1]) @ [l + 1 + 1..min (L + 1) F]))"
      using nt act nx ih by (subst policy_loop.simps) (simp add: eggdrop_next_state)
    moreover have "[l + 1..min (L + 1) F] = (l + 1) # [l + 1 + 1..min (L + 1) F]"
      using lL lF by (subst upto_rec1) simp_all
    ultimately show ?thesis by simp
  qed
qed

text \<open>The stored value of a non-terminal state satisfies the optimality equation.\<close>

lemma successors_image:
  assumes p: "lb s < p" "p < ub s"
  shows "(\<lambda>f. next_state s p f) ` {lb s..<ub s} =
           {\<lparr>eggs = eggs s - 1, lb = lb s, ub = p\<rparr>, \<lparr>eggs = eggs s, lb = p, ub = ub s\<rparr>}"
proof (intro set_eqI iffI)
  fix t assume "t \<in> (\<lambda>f. next_state s p f) ` {lb s..<ub s}"
  then show "t \<in> {\<lparr>eggs = eggs s - 1, lb = lb s, ub = p\<rparr>, \<lparr>eggs = eggs s, lb = p, ub = ub s\<rparr>}"
    using p by (auto simp: next_state_cases)
next
  fix t assume "t \<in> {\<lparr>eggs = eggs s - 1, lb = lb s, ub = p\<rparr>, \<lparr>eggs = eggs s, lb = p, ub = ub s\<rparr>}"
  then have "t = next_state s p (lb s) \<or> t = next_state s p p"
    using p by (auto simp: next_state_cases)
  moreover have "lb s \<in> {lb s..<ub s}" "p \<in> {lb s..<ub s}" using p by simp_all
  ultimately show "t \<in> (\<lambda>f. next_state s p f) ` {lb s..<ub s}" by blast
qed

lemma final_lower_present:
  assumes inv: "tables_inv F E (E + 1) V A" and wf: "wf_state F E s" and eg: "1 \<le> eggs s"
    and a: "lb s < a" "a < ub s"
  shows "V \<lparr>eggs = eggs s - 1, lb = lb s, ub = a\<rparr> \<noteq> None \<longleftrightarrow> (2 \<le> eggs s \<or> a = lb s + 1)"
proof
  let ?s1 = "\<lparr>eggs = eggs s - 1, lb = lb s, ub = a\<rparr>"
  assume "V ?s1 \<noteq> None"
  then obtain v where "V ?s1 = Some v" by auto
  with inv have "ub ?s1 \<noteq> lb ?s1 + 1 \<longrightarrow> 1 \<le> eggs ?s1" unfolding tables_inv_def by blast
  then show "2 \<le> eggs s \<or> a = lb s + 1" by auto
next
  let ?s1 = "\<lparr>eggs = eggs s - 1, lb = lb s, ub = a\<rparr>"
  assume c: "2 \<le> eggs s \<or> a = lb s + 1"
  have wf1: "wf_state F E ?s1" using wf eg a by (simp add: wf_state_def)
  from c show "V ?s1 \<noteq> None"
  proof
    assume "2 \<le> eggs s"
    with wf have "1 \<le> eggs ?s1 \<and> eggs ?s1 < E + 1" by (simp add: wf_state_def)
    with inv wf1 show ?thesis unfolding tables_inv_def by blast
  next
    assume "a = lb s + 1"
    then have "ub ?s1 = lb ?s1 + 1" by simp
    with inv wf1 show ?thesis unfolding tables_inv_def by blast
  qed
qed

lemma final_bellman:
  assumes inv: "tables_inv F E (E + 1) V A" and st: "V s = Some v" and nt: "\<not> isterminal s"
  shows "admissible_probes s V \<noteq> {} \<and>
         v = 1 + Min (worst_case s V ` admissible_probes s V)"
proof -
  have pres: "V s \<noteq> None" using st by simp
  from inv_present[OF inv pres] st have wf: "wf_state F E s" and v: "v = val_of s" by simp_all
  from wf nt have w2: "lb s + 2 \<le> ub s" by (auto simp: wf_state_def isterminal_def)
  with inv st have eg: "1 \<le> eggs s" unfolding tables_inv_def by fastforce
  have upper: "\<And>p. lb s < p \<Longrightarrow> p < ub s \<Longrightarrow> V \<lparr>eggs = eggs s, lb = p, ub = ub s\<rparr> \<noteq> None"
  proof -
    fix p assume p: "lb s < p" "p < ub s"
    have "wf_state F E \<lparr>eggs = eggs s, lb = p, ub = ub s\<rparr>" using wf p by (simp add: wf_state_def)
    moreover have "eggs s < E + 1" using wf by (simp add: wf_state_def)
    ultimately show "V \<lparr>eggs = eggs s, lb = p, ub = ub s\<rparr> \<noteq> None"
      using inv eg unfolding tables_inv_def by simp
  qed
  have mem: "\<And>p. p \<in> admissible_probes s V \<longleftrightarrow> lb s < p \<and> p < ub s \<and> (2 \<le> eggs s \<or> p = lb s + 1)"
  proof -
    fix p
    show "p \<in> admissible_probes s V \<longleftrightarrow> lb s < p \<and> p < ub s \<and> (2 \<le> eggs s \<or> p = lb s + 1)"
    proof (cases "lb s < p \<and> p < ub s")
      case False
      then show ?thesis by (auto simp: admissible_probes_def)
    next
      case True
      then have p: "lb s < p" "p < ub s" by simp_all
      have "(\<forall>f\<in>{lb s..<ub s}. V (next_state s p f) \<noteq> None) \<longleftrightarrow>
            (\<forall>t\<in>(\<lambda>f. next_state s p f) ` {lb s..<ub s}. V t \<noteq> None)" by blast
      also have "\<dots> \<longleftrightarrow> V \<lparr>eggs = eggs s - 1, lb = lb s, ub = p\<rparr> \<noteq> None \<and>
                         V \<lparr>eggs = eggs s, lb = p, ub = ub s\<rparr> \<noteq> None"
        unfolding successors_image[OF p] by simp
      also have "\<dots> \<longleftrightarrow> (2 \<le> eggs s \<or> p = lb s + 1)"
        using final_lower_present[OF inv wf eg p] upper[OF p] by simp
      finally show ?thesis using p by (simp add: admissible_probes_def)
    qed
  qed
  have wc: "\<And>p. p \<in> admissible_probes s V \<Longrightarrow> worst_case s V p = split_val s p - 1"
  proof -
    fix p assume pin: "p \<in> admissible_probes s V"
    then have p: "lb s < p" "p < ub s" "2 \<le> eggs s \<or> p = lb s + 1" by (simp_all add: mem)
    let ?s1 = "\<lparr>eggs = eggs s - 1, lb = lb s, ub = p\<rparr>"
    let ?s2 = "\<lparr>eggs = eggs s, lb = p, ub = ub s\<rparr>"
    have p1: "V ?s1 \<noteq> None" using final_lower_present[OF inv wf eg p(1,2)] p(3) by simp
    have v1: "the (V ?s1) = val_of ?s1" using inv_present(2)[OF inv p1] by simp
    have v2: "the (V ?s2) = val_of ?s2" using inv_present(2)[OF inv upper[OF p(1,2)]] by simp
    have "(\<lambda>f. the (V (next_state s p f))) ` {lb s..<ub s}
            = (\<lambda>t. the (V t)) ` ((\<lambda>f. next_state s p f) ` {lb s..<ub s})" by (simp add: image_image)
    also have "\<dots> = {val_of ?s1, val_of ?s2}"
      unfolding successors_image[OF p(1,2)] using v1 v2 by simp
    finally have "worst_case s V p = Max {val_of ?s1, val_of ?s2}" by (simp add: worst_case_def)
    then show "worst_case s V p = split_val s p - 1" by (simp add: split_val_def)
  qed
  have fin: "finite (admissible_probes s V)"
  proof (rule finite_subset)
    show "admissible_probes s V \<subseteq> {lb s..ub s}" by (auto simp: mem)
    show "finite {lb s..ub s}" by simp
  qed
  from val_of_bellman_ex[OF eg w2] obtain a where a: "lb s < a" "a < ub s"
    "eggs s = 1 \<longrightarrow> a = lb s + 1" "val_of s = split_val s a"
    unfolding split_val_def by blast
  have "2 \<le> eggs s \<or> a = lb s + 1" using a(3) eg by linarith
  with a have ain: "a \<in> admissible_probes s V" by (simp add: mem)
  have "Min (worst_case s V ` admissible_probes s V) = val_of s - 1"
  proof (rule Min_eqI)
    show "finite (worst_case s V ` admissible_probes s V)" using fin by simp
    show "val_of s - 1 \<in> worst_case s V ` admissible_probes s V"
      using ain wc[OF ain] a(4) by (intro image_eqI[of _ _ a]) simp_all
    fix y assume "y \<in> worst_case s V ` admissible_probes s V"
    then obtain p where pin: "p \<in> admissible_probes s V" and y: "y = worst_case s V p" by blast
    from pin have p: "lb s < p" "p < ub s" "2 \<le> eggs s \<or> p = lb s + 1" by (simp_all add: mem)
    then have "eggs s = 1 \<longrightarrow> p = lb s + 1" by linarith
    from val_of_bellman_le[OF eg p(1,2) this] have "val_of s \<le> split_val s p"
      by (simp add: split_val_def)
    with y wc[OF pin] show "val_of s - 1 \<le> y" by simp
  qed
  with v ain show ?thesis by auto
qed

section \<open>The classical recurrence as computed by \<open>classic_dpegg_limit\<close>\<close>

lemma reach_at_upd: "reach_at (m(k \<mapsto> v)) k' = (if k' = k then v else reach_at m k')"
  by (simp add: reach_at_def)

lemma reach_zero_fold:
  "\<forall>k. reach_at m k = 0 \<Longrightarrow> reach_at (fold (\<lambda>x r. r(g x \<mapsto> 0)) xs m) k = 0"
  by (induction xs arbitrary: m) (simp_all add: reach_at_upd)

lemma reachable_int_step:
  assumes "1 \<le> d" "1 \<le> e"
  shows "int (reachable (nat d) (nat e)) =
           1 + int (reachable (nat (d - 1)) (nat (e - 1))) + int (reachable (nat (d - 1)) (nat e))"
proof -
  have d': "Suc (nat (d - 1)) = nat d" using assms(1) by linarith
  have e': "Suc (nat (e - 1)) = nat e" using assms(2) by linarith
  have "reachable (Suc (nat (d - 1))) (Suc (nat (e - 1))) =
          1 + reachable (nat (d - 1)) (nat (e - 1)) + reachable (nat (d - 1)) (Suc (nat (e - 1)))"
    by simp
  then have "reachable (nat d) (nat e) =
          1 + reachable (nat (d - 1)) (nat (e - 1)) + reachable (nat (d - 1)) (nat e)"
    unfolding d' e' .
  then show ?thesis by simp
qed

lemma classic_e_loop_spec:
  assumes d: "1 \<le> d"
  shows "1 \<le> e \<Longrightarrow> e \<le> E + 1 \<Longrightarrow>
     (\<forall>e'. 0 \<le> e' \<and> e' \<le> E \<longrightarrow> reach_at reach [d - 1, e'] = int (reachable (nat (d - 1)) (nat e'))) \<Longrightarrow>
     (if \<exists>e'. e \<le> e' \<and> e' \<le> E \<and> F \<le> int (reachable (nat d) (nat e'))
      then classic_e_loop F E d e reach = Inl d
      else \<exists>reach'. classic_e_loop F E d e reach = Inr reach' \<and>
             (\<forall>e'. e \<le> e' \<and> e' \<le> E \<longrightarrow> reach_at reach' [d, e'] = int (reachable (nat d) (nat e'))) \<and>
             (\<forall>k. (\<forall>e'. e \<le> e' \<and> e' \<le> E \<longrightarrow> k \<noteq> [d, e']) \<longrightarrow> reach' k = reach k))"
proof (induction "nat (E + 1 - e)" arbitrary: e reach)
  case 0
  then have "e = E + 1" by simp
  then show ?case by (subst classic_e_loop.simps) auto
next
  case (Suc n)
  then have e: "1 \<le> e" "e \<le> E" by simp_all
  let ?N = "1 + reach_at reach [d - 1, e - 1] + reach_at reach [d - 1, e]"
  have N: "?N = int (reachable (nat d) (nat e))"
    using Suc.prems(3) e by (simp add: reachable_int_step[OF d e(1)])
  show ?case
  proof (cases "F \<le> ?N")
    case True
    then have "classic_e_loop F E d e reach = Inl d"
      using e by (subst classic_e_loop.simps) (simp add: Let_def)
    moreover have "\<exists>e'. e \<le> e' \<and> e' \<le> E \<and> F \<le> int (reachable (nat d) (nat e'))"
      using True N e by (intro exI[of _ e]) simp
    ultimately show ?thesis by simp
  next
    case False
    let ?r = "reach([d, e] \<mapsto> ?N)"
    have step: "classic_e_loop F E d e reach = classic_e_loop F E d (e + 1) ?r"
      using e False by (subst classic_e_loop.simps) (simp add: Let_def)
    have n: "n = nat (E + 1 - (e + 1))" using Suc.hyps(2) by simp
    have prev: "\<forall>e'. 0 \<le> e' \<and> e' \<le> E \<longrightarrow> reach_at ?r [d - 1, e'] = int (reachable (nat (d - 1)) (nat e'))"
      using Suc.prems(3) by (simp add: reach_at_upd)
    have e1: "1 \<le> e + 1" "e + 1 \<le> E + 1" using e by simp_all
    note ih = Suc.hyps(1)[OF n e1 prev]
    have ex_iff: "(\<exists>e'. e \<le> e' \<and> e' \<le> E \<and> F \<le> int (reachable (nat d) (nat e'))) \<longleftrightarrow>
                  (\<exists>e'. e + 1 \<le> e' \<and> e' \<le> E \<and> F \<le> int (reachable (nat d) (nat e')))"
    proof
      assume "\<exists>e'. e \<le> e' \<and> e' \<le> E \<and> F \<le> int (reachable (nat d) (nat e'))"
      then obtain e' where e': "e \<le> e'" "e' \<le> E" "F \<le> int (reachable (nat d) (nat e'))" by blast
      with False N have "e' \<noteq> e" by auto
      with e' show "\<exists>e'. e + 1 \<le> e' \<and> e' \<le> E \<and> F \<le> int (reachable (nat d) (nat e'))"
        by (intro exI[of _ e']) simp
    next
      assume "\<exists>e'. e + 1 \<le> e' \<and> e' \<le> E \<and> F \<le> int (reachable (nat d) (nat e'))"
      then obtain e' where "e + 1 \<le> e'" "e' \<le> E" "F \<le> int (reachable (nat d) (nat e'))" by blast
      then show "\<exists>e'. e \<le> e' \<and> e' \<le> E \<and> F \<le> int (reachable (nat d) (nat e'))"
        by (intro exI[of _ e']) simp
    qed
    show ?thesis
    proof (cases "\<exists>e'. e + 1 \<le> e' \<and> e' \<le> E \<and> F \<le> int (reachable (nat d) (nat e'))")
      case True
      with ih have "classic_e_loop F E d (e + 1) ?r = Inl d" by simp
      with step True ex_iff show ?thesis by simp
    next
      case nex: False
      with ih obtain reach' where r: "classic_e_loop F E d (e + 1) ?r = Inr reach'"
        "\<forall>e'. e + 1 \<le> e' \<and> e' \<le> E \<longrightarrow> reach_at reach' [d, e'] = int (reachable (nat d) (nat e'))"
        "\<forall>k. (\<forall>e'. e + 1 \<le> e' \<and> e' \<le> E \<longrightarrow> k \<noteq> [d, e']) \<longrightarrow> reach' k = ?r k"
        by auto
      have row: "\<forall>e'. e \<le> e' \<and> e' \<le> E \<longrightarrow> reach_at reach' [d, e'] = int (reachable (nat d) (nat e'))"
      proof (intro allI impI)
        fix e' assume e': "e \<le> e' \<and> e' \<le> E"
        show "reach_at reach' [d, e'] = int (reachable (nat d) (nat e'))"
        proof (cases "e' = e")
          case True
          have "reach' [d, e] = ?r [d, e]" using r(3) by simp
          then show ?thesis using True N by (simp add: reach_at_def)
        next
          case False
          with e' r(2) show ?thesis by simp
        qed
      qed
      have frame: "\<forall>k. (\<forall>e'. e \<le> e' \<and> e' \<le> E \<longrightarrow> k \<noteq> [d, e']) \<longrightarrow> reach' k = reach k"
      proof (intro allI impI)
        fix k assume k: "\<forall>e'. e \<le> e' \<and> e' \<le> E \<longrightarrow> k \<noteq> [d, e']"
        then have "\<forall>e'. e + 1 \<le> e' \<and> e' \<le> E \<longrightarrow> k \<noteq> [d, e']" by simp
        with r(3) have "reach' k = ?r k" by blast
        moreover have "k \<noteq> [d, e]" using k e by simp
        ultimately show "reach' k = reach k" by simp
      qed
      from step r(1) row frame nex ex_iff show ?thesis by simp
    qed
  qed
qed

lemma classic_d_loop_spec:
  assumes FE: "1 \<le> F" "1 \<le> E"
  shows "1 \<le> d \<Longrightarrow> d \<le> F + 1 \<Longrightarrow>
     (\<forall>e'. 0 \<le> e' \<and> e' \<le> E \<longrightarrow> reach_at reach [d - 1, e'] = int (reachable (nat (d - 1)) (nat e'))) \<Longrightarrow>
     (\<forall>d'. reach_at reach [d', 0] = 0) \<Longrightarrow>
     int (reachable (nat (d - 1)) (nat E)) < F \<Longrightarrow>
     classic_d_loop F E d reach = int (mindrops (nat E) (nat (F + 1)))"
proof (induction "nat (F + 1 - d)" arbitrary: d reach)
  case 0
  then have "d = F + 1" by simp
  with "0.prems"(5) have "int (reachable (nat F) (nat E)) < F" by simp
  moreover have "nat F \<le> reachable (nat F) (nat E)" using FE by (intro reachable_ge) simp
  ultimately show ?case using FE by linarith
next
  case (Suc n)
  then have d: "1 \<le> d" "d \<le> F" by simp_all
  have Epos: "0 < nat E" using FE by simp
  note el = classic_e_loop_spec[OF d(1), of 1 E reach F, OF _ _ Suc.prems(3)]
  have mono: "\<And>e'. 1 \<le> e' \<Longrightarrow> e' \<le> E \<Longrightarrow> reachable (nat d) (nat e') \<le> reachable (nat d) (nat E)"
    by (intro reachable_mono_e) simp
  have ex_iff: "(\<exists>e'. 1 \<le> e' \<and> e' \<le> E \<and> F \<le> int (reachable (nat d) (nat e'))) \<longleftrightarrow>
                F \<le> int (reachable (nat d) (nat E))"
  proof
    assume "\<exists>e'. 1 \<le> e' \<and> e' \<le> E \<and> F \<le> int (reachable (nat d) (nat e'))"
    then obtain e' where e': "1 \<le> e'" "e' \<le> E" "F \<le> int (reachable (nat d) (nat e'))" by blast
    from mono[OF e'(1,2)] e'(3) show "F \<le> int (reachable (nat d) (nat E))" by linarith
  next
    assume "F \<le> int (reachable (nat d) (nat E))"
    with FE show "\<exists>e'. 1 \<le> e' \<and> e' \<le> E \<and> F \<le> int (reachable (nat d) (nat e'))"
      by (intro exI[of _ E]) simp
  qed
  show ?case
  proof (cases "F \<le> int (reachable (nat d) (nat E))")
    case True
    with el ex_iff FE have "classic_e_loop F E d 1 reach = Inl d" by simp
    then have res: "classic_d_loop F E d reach = d"
      using d by (subst classic_d_loop.simps) simp
    have "nat (F + 1) \<le> reachable (nat d) (nat E) + 1" using True FE by linarith
    then have le: "mindrops (nat E) (nat (F + 1)) \<le> nat d" by (simp add: mindrops_le_iff[OF Epos])
    have "\<not> nat (F + 1) \<le> reachable (nat (d - 1)) (nat E) + 1" using Suc.prems(5) FE by linarith
    then have "\<not> mindrops (nat E) (nat (F + 1)) \<le> nat (d - 1)" by (simp add: mindrops_le_iff[OF Epos])
    with le d have "int (mindrops (nat E) (nat (F + 1))) = d" by linarith
    with res show ?thesis by simp
  next
    case False
    with el ex_iff FE obtain reach' where r: "classic_e_loop F E d 1 reach = Inr reach'"
      "\<forall>e'. 1 \<le> e' \<and> e' \<le> E \<longrightarrow> reach_at reach' [d, e'] = int (reachable (nat d) (nat e'))"
      "\<forall>k. (\<forall>e'. 1 \<le> e' \<and> e' \<le> E \<longrightarrow> k \<noteq> [d, e']) \<longrightarrow> reach' k = reach k"
      by auto
    have step: "classic_d_loop F E d reach = classic_d_loop F E (d + 1) reach'"
      using d r(1) by (subst classic_d_loop.simps) simp
    have zero: "\<forall>d'. reach_at reach' [d', 0] = 0"
    proof
      fix d'
      have "reach' [d', 0] = reach [d', 0]" using r(3) by simp
      then show "reach_at reach' [d', 0] = 0" using Suc.prems(4) by (simp add: reach_at_def)
    qed
    have row: "\<forall>e'. 0 \<le> e' \<and> e' \<le> E \<longrightarrow>
                 reach_at reach' [d + 1 - 1, e'] = int (reachable (nat (d + 1 - 1)) (nat e'))"
    proof (intro allI impI)
      fix e' assume e': "0 \<le> e' \<and> e' \<le> E"
      show "reach_at reach' [d + 1 - 1, e'] = int (reachable (nat (d + 1 - 1)) (nat e'))"
      proof (cases "e' = 0")
        case True
        with zero show ?thesis by simp
      next
        case False
        with e' r(2) show ?thesis by simp
      qed
    qed
    have n: "n = nat (F + 1 - (d + 1))" using Suc.hyps(2) by simp
    have d1: "1 \<le> d + 1" "d + 1 \<le> F + 1" using d by simp_all
    have "int (reachable (nat (d + 1 - 1)) (nat E)) < F" using False by simp
    from Suc.hyps(1)[OF n d1 row zero this] step show ?thesis by simp
  qed
qed

lemma classic_dpegg_limit_eq:
  assumes FE: "1 \<le> F" "1 \<le> E"
  shows "classic_dpegg_limit F E = int (mindrops (nat E) (nat (F + 1)))"
proof -
  let ?r0 = "fold (\<lambda>e reach. reach([0, e] \<mapsto> 0)) [0..E] Map.empty"
  let ?r1 = "fold (\<lambda>d reach. reach([d, 0] \<mapsto> 0)) [1..F] ?r0"
  have z0: "\<forall>k. reach_at ?r0 k = 0"
    by (intro allI reach_zero_fold[where g = "\<lambda>e. [0, e]"]) (simp add: reach_at_def)
  have z1: "\<forall>k. reach_at ?r1 k = 0"
    by (intro allI reach_zero_fold[where g = "\<lambda>d. [d, 0]"] z0)
  have "classic_d_loop F E 1 ?r1 = int (mindrops (nat E) (nat (F + 1)))"
    using FE z1 by (intro classic_d_loop_spec[OF FE]) simp_all
  then show ?thesis by (simp add: classic_dpegg_limit_def Let_def)
qed

section \<open>Early termination; missing entries; evaluation on small instances\<close>

lemma early_stop_min:
  assumes "valley (snd (find_admissible_actions s V [] [] False))"
  shows "min_value (snd (find_admissible_actions s V [] [] True)) =
         min_value (snd (find_admissible_actions s V [] [] False))"
proof -
  let ?fv = "map (cval s V) (candidates s V (lb s + 1))"
  have v: "valley ?fv" using assms by (simp add: find_admissible_full)
  show ?thesis
  proof (cases "?fv = []")
    case True
    then have "cut_vals [] ?fv = []" by (simp only: cut_vals_empty)
    with True show ?thesis by (simp add: find_admissible_full find_admissible_cut min_value_def)
  next
    case False
    then have ne: "cut_vals [] ?fv \<noteq> []" by (simp only: cut_vals_empty not_False_eq_True)
    from argmin_spec[OF False] argmin_spec[OF ne] cut_vals_min[OF v False] False ne
    show ?thesis by (simp add: find_admissible_full find_admissible_cut min_value_def)
  qed
qed

lemmas eval_find = find_admissible_actions_def find_loop.simps calc_maximum_value_def
  calc_loop.simps next_state_eq cost_def min_value_def argmin_def Let_def

text \<open>On the tables of the builder the values of the admissible actions of a stored state are
  unimodal in probe order, so the early stop finds the stored value.\<close>

lemma final_cell:
  assumes inv: "tables_inv F E (E + 1) V A" and st: "V s = Some v" and nt: "\<not> isterminal s"
  shows "valley (snd (find_admissible_actions s V [] [] False))"
    and "min_value (snd (find_admissible_actions s V [] [] False)) = Some v"
    and "min_value (snd (find_admissible_actions s V [] [] True)) = Some v"
proof -
  let ?cs = "candidates s V (lb s + 1)"
  have pres: "V s \<noteq> None" using st by simp
  from inv_present[OF inv pres] st have wf: "wf_state F E s" and v: "v = val_of s" by simp_all
  from wf nt have w2: "lb s + 2 \<le> ub s" by (auto simp: wf_state_def isterminal_def)
  with inv st have eg: "1 \<le> eggs s" unfolding tables_inv_def by fastforce
  have le: "eggs s \<le> E + 1" using wf by (simp add: wf_state_def)
  have deps: "\<forall>a. lb s < a \<and> a < ub s \<longrightarrow> V \<lparr>eggs = eggs s, lb = a, ub = ub s\<rparr> \<noteq> None"
  proof (intro allI impI)
    fix a assume a: "lb s < a \<and> a < ub s"
    have "wf_state F E \<lparr>eggs = eggs s, lb = a, ub = ub s\<rparr>" using wf a by (simp add: wf_state_def)
    moreover have "eggs s < E + 1" using wf by (simp add: wf_state_def)
    ultimately show "V \<lparr>eggs = eggs s, lb = a, ub = ub s\<rparr> \<noteq> None"
      using inv eg unfolding tables_inv_def by simp
  qed
  have full: "snd (find_admissible_actions s V [] [] False) = map (split_val s) ?cs"
    by (simp add: find_admissible_full cell_vals[OF inv wf eg le deps w2])
  have val: "valley (map (split_val s) ?cs)" by (rule cell_valley[OF inv wf eg le deps w2])
  show vf: "valley (snd (find_admissible_actions s V [] [] False))" unfolding full by (rule val)
  have ne: "map (split_val s) ?cs \<noteq> []" using cell_min(1)[OF inv wf eg le deps w2] by simp
  from argmin_spec[OF ne] cell_min(2)[OF inv wf eg le deps w2] ne v
  show mf: "min_value (snd (find_admissible_actions s V [] [] False)) = Some v"
    unfolding full by (simp add: min_value_def)
  from early_stop_min[OF vf] mf
  show "min_value (snd (find_admissible_actions s V [] [] True)) = Some v" by simp
qed

lemma builder_values_unimodal:
  assumes "1 \<le> F" "1 \<le> E"
  shows "\<exists>V A scans. build_tables F E use_tiebreak = Some (Inr ((V, A), scans)) \<and>
           (\<forall>s v. V s = Some v \<and> \<not> isterminal s \<longrightarrow>
              valley (snd (find_admissible_actions s V [] [] False)) \<and>
              min_value (snd (find_admissible_actions s V [] [] False)) = Some v \<and>
              min_value (snd (find_admissible_actions s V [] [] True)) = Some v)"
proof -
  have F0: "0 \<le> F" and E0: "0 \<le> E" using assms by simp_all
  from build_tables_returns[OF F0 E0, of use_tiebreak] obtain V A ns where
    b: "build_tables F E use_tiebreak = Some (Inr ((V, A), ns))"
    and inv: "tables_inv F E (E + 1) V A" by blast
  have "\<forall>s v. V s = Some v \<and> \<not> isterminal s \<longrightarrow>
              valley (snd (find_admissible_actions s V [] [] False)) \<and>
              min_value (snd (find_admissible_actions s V [] [] False)) = Some v \<and>
              min_value (snd (find_admissible_actions s V [] [] True)) = Some v"
    using final_cell[OF inv] by blast
  with b show ?thesis by blast
qed

lemma policy_loop_missing:
  "\<not> isterminal s \<Longrightarrow> A s = None \<Longrightarrow> policy_loop A L s n xs = Some (Inl EndIteratorDeref)"
  by (subst policy_loop.simps) simp

lemma total_policy_at_missing:
  assumes "lb s < ub s" "\<not> isterminal (next_state s a (lb s))" "A (next_state s a (lb s)) = None"
  shows "total_policy_at s a A = Some (Inl EndIteratorDeref)"
proof -
  have "[lb s..ub s - 1] = lb s # [lb s + 1..ub s - 1]" using assms(1) by (subst upto_rec1) simp_all
  then show ?thesis
    using policy_loop_missing[of "next_state s a (lb s)" A "lb s" 1 "[]", OF assms(2,3)] by (simp add: total_policy_at_def)
qed

lemma classic_10_2: "classic_dpegg_limit 10 2 = 4"
  by code_simp

lemma entries_3_2:
  "entries_of (build_tables 3 2 False)
     [\<lparr>eggs = 1, lb = 0, ub = 4\<rparr>, \<lparr>eggs = 2, lb = 0, ub = 4\<rparr>]
   = ([(Some 3, Some 1), (Some 2, Some 2)], [2, 2])"
  by code_simp
section \<open>The claims\<close>

text \<open>
  Claim C1.  For a valid instance (\<open>F \<ge> 1\<close>, \<open>E \<ge> 1\<close>) and an egg level \<open>1 \<le> e \<le> E\<close>, the
  table builder returns, and on its tables \<open>check_policy\<close> returns true: \<open>max_drops\<close>, the
  largest step count of \<open>run_policy_once\<close> over the thresholds \<open>L\<close> in \<open>[0, F]\<close>, equals the
  stored value \<open>V[(e, 0, F + 1)]\<close>.  This holds with and without the tie-break rule and with
  and without the two histograms.
\<close>

theorem check_policy_round_trip:
  assumes "1 \<le> F" "1 \<le> E" "1 \<le> e" "e \<le> E"
  shows "\<exists>V A scans. build_tables F E use_tiebreak = Some (Inr ((V, A), scans)) \<and>
           (\<exists>nominal sum_steps D H.
              V \<lparr>eggs = e, lb = 0, ub = F + 1\<rparr> = Some nominal \<and>
              check_policy F e V A wantD wantH = Some (Inr (True, nominal, sum_steps, D, H)) \<and>
              (\<forall>L. 0 \<le> L \<and> L \<le> F \<longrightarrow>
                 (\<exists>k tr. run_policy_once F e L A = Some (Inr (k, tr)) \<and> k \<le> nominal)) \<and>
              (\<exists>L tr. 0 \<le> L \<and> L \<le> F \<and> run_policy_once F e L A = Some (Inr (nominal, tr))))"
proof -
  have F0: "0 \<le> F" and E0: "0 \<le> E" using assms by simp_all
  from build_tables_returns[OF F0 E0, of use_tiebreak] obtain V A ns where
    b: "build_tables F E use_tiebreak = Some (Inr ((V, A), ns))"
    and inv: "tables_inv F E (E + 1) V A" by blast
  let ?v = "val_of \<lparr>eggs = e, lb = 0, ub = F + 1\<rparr>"
  have nominal: "V \<lparr>eggs = e, lb = 0, ub = F + 1\<rparr> = Some ?v"
    using final_entry[OF inv assms(3,4), of 0 "F + 1"] F0 by simp
  from check_policy_ok[OF inv assms(3,4) F0, of wantD wantH] obtain sm D H where
    c: "check_policy F e V A wantD wantH = Some (Inr (True, ?v, sm, D, H))" by blast
  have runs: "\<forall>L. 0 \<le> L \<and> L \<le> F \<longrightarrow>
                (\<exists>k tr. run_policy_once F e L A = Some (Inr (k, tr)) \<and> k \<le> ?v)"
    using run_policy_once_returns[OF inv assms(3,4) F0] by blast
  from run_policy_once_attains[OF inv assms(3,4) F0]
  have att: "\<exists>L tr. 0 \<le> L \<and> L \<le> F \<and> run_policy_once F e L A = Some (Inr (?v, tr))" .
  from b nominal c runs att show ?thesis by blast
qed

theorem check_policy_round_trip_witness:
  "(1::int) \<le> 3 \<and> (1::int) \<le> 2 \<and> (2::int) \<le> 2 \<and>
   (\<exists>V A scans. build_tables 3 2 False = Some (Inr ((V, A), scans)) \<and>
      V \<lparr>eggs = 2, lb = 0, ub = 4\<rparr> = Some 2 \<and>
      (\<exists>sum_steps D H. check_policy 3 2 V A True True = Some (Inr (True, 2, sum_steps, D, H))))"
proof -
  have "\<exists>V A scans. build_tables 3 2 False = Some (Inr ((V, A), scans)) \<and>
           (\<exists>nominal sum_steps D H.
              V \<lparr>eggs = 2, lb = 0, ub = 3 + 1\<rparr> = Some nominal \<and>
              check_policy 3 2 V A True True = Some (Inr (True, nominal, sum_steps, D, H)) \<and>
              (\<forall>L. 0 \<le> L \<and> L \<le> 3 \<longrightarrow>
                 (\<exists>k tr. run_policy_once 3 2 L A = Some (Inr (k, tr)) \<and> k \<le> nominal)) \<and>
              (\<exists>L tr. 0 \<le> L \<and> L \<le> 3 \<and> run_policy_once 3 2 L A = Some (Inr (nominal, tr))))"
    by (rule check_policy_round_trip) simp_all
  then obtain V A scans nominal sum_steps D H where
    b: "build_tables 3 2 False = Some (Inr ((V, A), scans))"
    and n: "V \<lparr>eggs = 2, lb = 0, ub = 3 + 1\<rparr> = Some nominal"
    and c: "check_policy 3 2 V A True True = Some (Inr (True, nominal, sum_steps, D, H))"
    by blast
  from entries_3_2 b have v: "V \<lparr>eggs = 2, lb = 0, ub = 4\<rparr> = Some 2"
    by (simp add: entries_of_def)
  with n have "nominal = 2" by simp
  with b c v show ?thesis by auto
qed

text \<open>
  Claim C2.  For a valid instance, the converged value \<open>V[(E, 0, F + 1)]\<close> equals
  \<open>classic_dpegg_limit(F, E)\<close>, and that number is the least \<open>d\<close> for which the reach
  \<open>1 + reach(d - 1, E - 1) + reach(d - 1, E)\<close> of \<open>d\<close> drops with \<open>E\<close> eggs is at least \<open>F\<close>.
\<close>

theorem nominal_value_is_classic_limit:
  assumes "1 \<le> F" "1 \<le> E"
  shows "\<exists>V A scans. build_tables F E use_tiebreak = Some (Inr ((V, A), scans)) \<and>
           V \<lparr>eggs = E, lb = 0, ub = F + 1\<rparr> = Some (classic_dpegg_limit F E) \<and>
           F \<le> int (reachable (nat (classic_dpegg_limit F E)) (nat E)) \<and>
           (\<forall>d. int d < classic_dpegg_limit F E \<longrightarrow> int (reachable d (nat E)) < F)"
proof -
  have F0: "0 \<le> F" and E0: "0 \<le> E" using assms by simp_all
  from build_tables_returns[OF F0 E0, of use_tiebreak] obtain V A ns where
    b: "build_tables F E use_tiebreak = Some (Inr ((V, A), ns))"
    and inv: "tables_inv F E (E + 1) V A" by blast
  have cl: "classic_dpegg_limit F E = int (mindrops (nat E) (nat (F + 1)))"
    by (rule classic_dpegg_limit_eq[OF assms])
  have "V \<lparr>eggs = E, lb = 0, ub = F + 1\<rparr> = Some (val_of \<lparr>eggs = E, lb = 0, ub = F + 1\<rparr>)"
    using final_entry[OF inv assms(2) order_refl, of 0 "F + 1"] F0 by simp
  then have v: "V \<lparr>eggs = E, lb = 0, ub = F + 1\<rparr> = Some (classic_dpegg_limit F E)"
    by (simp add: cl val_of_def)
  have Epos: "0 < nat E" using assms(2) by simp
  note iff = mindrops_le_iff[OF Epos, of "nat (F + 1)"]
  have "nat (F + 1) \<le> reachable (mindrops (nat E) (nat (F + 1))) (nat E) + 1"
    using iff[of "mindrops (nat E) (nat (F + 1))"] by simp
  then have r1: "F \<le> int (reachable (nat (classic_dpegg_limit F E)) (nat E))"
    unfolding cl using F0 by simp
  have r2: "\<forall>d. int d < classic_dpegg_limit F E \<longrightarrow> int (reachable d (nat E)) < F"
  proof (intro allI impI)
    fix d assume "int d < classic_dpegg_limit F E"
    then have "\<not> mindrops (nat E) (nat (F + 1)) \<le> d" unfolding cl by simp
    then have "\<not> nat (F + 1) \<le> reachable d (nat E) + 1" using iff[of d] by simp
    then show "int (reachable d (nat E)) < F" using F0 by linarith
  qed
  from b v r1 r2 show ?thesis by blast
qed

theorem nominal_value_is_classic_limit_witness:
  "(1::int) \<le> 10 \<and> (1::int) \<le> 2 \<and> classic_dpegg_limit 10 2 = 4 \<and>
   (\<exists>V A scans. build_tables 10 2 False = Some (Inr ((V, A), scans)) \<and>
      V \<lparr>eggs = 2, lb = 0, ub = 11\<rparr> = Some 4)"
proof -
  have "\<exists>V A scans. build_tables 10 2 False = Some (Inr ((V, A), scans)) \<and>
           V \<lparr>eggs = 2, lb = 0, ub = 10 + 1\<rparr> = Some (classic_dpegg_limit 10 2) \<and>
           10 \<le> int (reachable (nat (classic_dpegg_limit 10 2)) (nat 2)) \<and>
           (\<forall>d. int d < classic_dpegg_limit 10 2 \<longrightarrow> int (reachable d (nat 2)) < 10)"
    by (rule nominal_value_is_classic_limit) simp_all
  then show ?thesis by (auto simp: classic_10_2)
qed

text \<open>
  Claim C3.  On the converged tables of a valid instance, every terminal state
  \<open>(e, f, f + 1)\<close> with \<open>0 \<le> e \<le> E\<close> and \<open>0 \<le> f \<le> F\<close> has the value 0, and every stored
  non-terminal state \<open>s\<close> has the value \<open>1 + min\<close> over the probes \<open>p\<close> with
  \<open>s.lb < p < s.ub\<close> all of whose successors are stored, of the \<open>max\<close> over the thresholds \<open>f\<close>
  in \<open>[s.lb, s.ub)\<close> of \<open>V[s.next(p, f)]\<close>.
\<close>

theorem bellman_fixed_point:
  assumes "1 \<le> F" "1 \<le> E"
  shows "\<exists>V A scans. build_tables F E use_tiebreak = Some (Inr ((V, A), scans)) \<and>
           (\<forall>e f. 0 \<le> e \<and> e \<le> E \<and> 0 \<le> f \<and> f \<le> F \<longrightarrow>
              V \<lparr>eggs = e, lb = f, ub = f + 1\<rparr> = Some 0) \<and>
           (\<forall>s v. V s = Some v \<and> \<not> isterminal s \<longrightarrow>
              admissible_probes s V \<noteq> {} \<and>
              v = 1 + Min (worst_case s V ` admissible_probes s V))"
proof -
  have F0: "0 \<le> F" and E0: "0 \<le> E" using assms by simp_all
  from build_tables_returns[OF F0 E0, of use_tiebreak] obtain V A ns where
    b: "build_tables F E use_tiebreak = Some (Inr ((V, A), ns))"
    and inv: "tables_inv F E (E + 1) V A" by blast
  have t: "\<forall>e f. 0 \<le> e \<and> e \<le> E \<and> 0 \<le> f \<and> f \<le> F \<longrightarrow>
              V \<lparr>eggs = e, lb = f, ub = f + 1\<rparr> = Some 0"
    using final_terminal[OF inv] by blast
  have n: "\<forall>s v. V s = Some v \<and> \<not> isterminal s \<longrightarrow>
              admissible_probes s V \<noteq> {} \<and>
              v = 1 + Min (worst_case s V ` admissible_probes s V)"
    using final_bellman[OF inv] by blast
  from b t n show ?thesis by blast
qed

theorem bellman_fixed_point_witness:
  "(1::int) \<le> 3 \<and> (1::int) \<le> 2 \<and>
   (\<exists>V A scans. build_tables 3 2 False = Some (Inr ((V, A), scans)) \<and>
      V \<lparr>eggs = 0, lb = 0, ub = 1\<rparr> = Some 0 \<and>
      V \<lparr>eggs = 2, lb = 0, ub = 4\<rparr> = Some 2 \<and> \<not> isterminal \<lparr>eggs = 2, lb = 0, ub = 4\<rparr> \<and>
      (2::int) = 1 + Min (worst_case \<lparr>eggs = 2, lb = 0, ub = 4\<rparr> V
                           ` admissible_probes \<lparr>eggs = 2, lb = 0, ub = 4\<rparr> V))"
proof -
  have "\<exists>V A scans. build_tables 3 2 False = Some (Inr ((V, A), scans)) \<and>
           (\<forall>e f. 0 \<le> e \<and> e \<le> 2 \<and> 0 \<le> f \<and> f \<le> 3 \<longrightarrow>
              V \<lparr>eggs = e, lb = f, ub = f + 1\<rparr> = Some 0) \<and>
           (\<forall>s v. V s = Some v \<and> \<not> isterminal s \<longrightarrow>
              admissible_probes s V \<noteq> {} \<and>
              v = 1 + Min (worst_case s V ` admissible_probes s V))"
    by (rule bellman_fixed_point) simp_all
  then obtain V A scans where
    b: "build_tables 3 2 False = Some (Inr ((V, A), scans))"
    and t: "\<forall>e f. 0 \<le> e \<and> e \<le> 2 \<and> 0 \<le> f \<and> f \<le> 3 \<longrightarrow>
              V \<lparr>eggs = e, lb = f, ub = f + 1\<rparr> = Some 0"
    and n: "\<forall>s v. V s = Some v \<and> \<not> isterminal s \<longrightarrow>
              admissible_probes s V \<noteq> {} \<and>
              v = 1 + Min (worst_case s V ` admissible_probes s V)"
    by blast
  from entries_3_2 b have v: "V \<lparr>eggs = 2, lb = 0, ub = 4\<rparr> = Some 2"
    by (simp add: entries_of_def)
  have nt: "\<not> isterminal \<lparr>eggs = 2, lb = 0, ub = 4\<rparr>" by (simp add: isterminal_def)
  have t0: "V \<lparr>eggs = 0, lb = 0, ub = 0 + 1\<rparr> = Some 0" using t[rule_format, of 0 0] by simp
  from n v nt have "(2::int) = 1 + Min (worst_case \<lparr>eggs = 2, lb = 0, ub = 4\<rparr> V
                           ` admissible_probes \<lparr>eggs = 2, lb = 0, ub = 4\<rparr> V)" by blast
  with b v nt t0 show ?thesis by auto
qed

text \<open>
  Claim C4, as amended.  When the loop of \<open>run_policy_once\<close> or the loop inside
  \<open>total_policy_at\<close> is at a non-terminal state for which the action table has no entry, the
  code reads the action through the iterator that \<open>find\<close> returned, without a test: the
  outcome is the fault \<open>EndIteratorDeref\<close> (undefined behaviour in C++), not an abort.  On
  the tables of the converged builder the situation does not arise: for every \<open>1 \<le> e \<le> E\<close>
  and every threshold \<open>0 \<le> L \<le> F\<close> the policy runner returns.
\<close>

theorem missing_action_is_not_checked:
  "(\<forall>A L s n xs. \<not> isterminal s \<and> A s = None \<longrightarrow>
      policy_loop A L s n xs = Some (Inl EndIteratorDeref)) \<and>
   (\<forall>s a A. lb s < ub s \<and> \<not> isterminal (next_state s a (lb s)) \<and>
            A (next_state s a (lb s)) = None \<longrightarrow>
      total_policy_at s a A = Some (Inl EndIteratorDeref)) \<and>
   (\<forall>F E use_tiebreak. 1 \<le> F \<and> 1 \<le> E \<longrightarrow>
      (\<exists>V A scans. build_tables F E use_tiebreak = Some (Inr ((V, A), scans)) \<and>
         (\<forall>e L. 1 \<le> e \<and> e \<le> E \<and> 0 \<le> L \<and> L \<le> F \<longrightarrow>
            (\<exists>k tr. run_policy_once F e L A = Some (Inr (k, tr))))))"
proof (intro conjI allI impI)
  fix A :: table and L n :: int and s :: tState and xs :: "int list"
  assume "\<not> isterminal s \<and> A s = None"
  then show "policy_loop A L s n xs = Some (Inl EndIteratorDeref)"
    by (simp add: policy_loop_missing)
next
  fix s :: tState and a :: int and A :: table
  assume "lb s < ub s \<and> \<not> isterminal (next_state s a (lb s)) \<and> A (next_state s a (lb s)) = None"
  then show "total_policy_at s a A = Some (Inl EndIteratorDeref)"
    by (simp add: total_policy_at_missing)
next
  fix F E :: int and use_tiebreak :: bool
  assume FE: "1 \<le> F \<and> 1 \<le> E"
  then have F0: "0 \<le> F" and E0: "0 \<le> E" by simp_all
  from build_tables_returns[OF F0 E0, of use_tiebreak] obtain V A ns where
    b: "build_tables F E use_tiebreak = Some (Inr ((V, A), ns))"
    and inv: "tables_inv F E (E + 1) V A" by blast
  have "\<forall>e L. 1 \<le> e \<and> e \<le> E \<and> 0 \<le> L \<and> L \<le> F \<longrightarrow>
            (\<exists>k tr. run_policy_once F e L A = Some (Inr (k, tr)))"
  proof (intro allI impI)
    fix e L assume "1 \<le> e \<and> e \<le> E \<and> 0 \<le> L \<and> L \<le> F"
    then have e: "1 \<le> e" "e \<le> E" by simp_all
    from run_policy_once_returns[OF inv e F0, of L]
    show "\<exists>k tr. run_policy_once F e L A = Some (Inr (k, tr))" by blast
  qed
  with b show "\<exists>V A scans. build_tables F E use_tiebreak = Some (Inr ((V, A), scans)) \<and>
         (\<forall>e L. 1 \<le> e \<and> e \<le> E \<and> 0 \<le> L \<and> L \<le> F \<longrightarrow>
            (\<exists>k tr. run_policy_once F e L A = Some (Inr (k, tr))))" by blast
qed

theorem missing_action_is_not_checked_witness:
  "\<not> isterminal \<lparr>eggs = 1, lb = 1, ub = 3\<rparr> \<and>
   policy_loop Map.empty 0 \<lparr>eggs = 1, lb = 1, ub = 3\<rparr> 5 [1] = Some (Inl EndIteratorDeref) \<and>
   total_policy_at \<lparr>eggs = 2, lb = 0, ub = 3\<rparr> 2 Map.empty = Some (Inl EndIteratorDeref) \<and>
   (\<exists>V A scans. build_tables 3 2 False = Some (Inr ((V, A), scans)) \<and>
      (\<exists>k tr. run_policy_once 3 2 1 A = Some (Inr (k, tr))))"
proof -
  note m = missing_action_is_not_checked
  have nt: "\<not> isterminal \<lparr>eggs = 1, lb = 1, ub = 3\<rparr>" by (simp add: isterminal_def)
  have p: "policy_loop Map.empty 0 \<lparr>eggs = 1, lb = 1, ub = 3\<rparr> 5 [1]
             = Some (Inl EndIteratorDeref)"
    using m[THEN conjunct1, rule_format, where A = Map.empty and s = "\<lparr>eggs = 1, lb = 1, ub = 3\<rparr>"] nt
    by simp
  have "\<not> isterminal (next_state \<lparr>eggs = 2, lb = 0, ub = 3\<rparr> 2 (lb \<lparr>eggs = 2, lb = 0, ub = 3\<rparr>))"
    by (simp add: next_state_eq isterminal_def)
  then have t: "total_policy_at \<lparr>eggs = 2, lb = 0, ub = 3\<rparr> 2 Map.empty
                  = Some (Inl EndIteratorDeref)"
    using m[THEN conjunct2, THEN conjunct1, rule_format,
            where A = Map.empty and s = "\<lparr>eggs = 2, lb = 0, ub = 3\<rparr>" and a = 2]
    by simp
  have "\<exists>V A scans. build_tables 3 2 False = Some (Inr ((V, A), scans)) \<and>
         (\<forall>e L. 1 \<le> e \<and> e \<le> 2 \<and> 0 \<le> L \<and> L \<le> 3 \<longrightarrow>
            (\<exists>k tr. run_policy_once 3 e L A = Some (Inr (k, tr))))"
    using m[THEN conjunct2, THEN conjunct2, rule_format, of 3 2 False] by simp
  then obtain V A scans where b: "build_tables 3 2 False = Some (Inr ((V, A), scans))"
    and r: "\<forall>e L. 1 \<le> e \<and> e \<le> 2 \<and> 0 \<le> L \<and> L \<le> 3 \<longrightarrow>
            (\<exists>k tr. run_policy_once 3 e L A = Some (Inr (k, tr)))" by blast
  have "\<exists>k tr. run_policy_once 3 2 1 A = Some (Inr (k, tr))" using r[rule_format, of 2 1] by simp
  with nt p t b show ?thesis by blast
qed

text \<open>The claim as it was stated fails on the empty action table: the instance
  \<open>F = 1\<close>, \<open>E = 1\<close>, \<open>L = 0\<close> starts at the non-terminal state \<open>(1, 0, 2)\<close>, the table has no
  entry for it, and the run ends in the unchecked read, not in an abort.\<close>

theorem missing_action_no_abort:
  "\<not> isterminal \<lparr>eggs = 1, lb = 0, ub = 2\<rparr> \<and>
   (Map.empty :: table) \<lparr>eggs = 1, lb = 0, ub = 2\<rparr> = None \<and>
   run_policy_once 1 1 0 Map.empty = Some (Inl EndIteratorDeref)"
  by (simp add: run_policy_once_def policy_loop.simps isterminal_def)

text \<open>
  Claim C5.  For a valid instance the table builder terminates: it returns its tables, and
  at each of the \<open>E\<close> egg levels the scan loop ends, after one or two scans, with a scan that
  makes no insertion and no modification (the loop has no other exit); a further scan of any
  level \<open>e\<close> in \<open>1..E\<close> returns the final tables as they are, with no insertion and no
  modification.  A scan, started on any tables, never removes an entry and never raises a
  stored value.
\<close>

theorem table_builder_terminates:
  assumes "1 \<le> F" "1 \<le> E"
  shows "(\<exists>V A scans. build_tables F E use_tiebreak = Some (Inr ((V, A), scans)) \<and>
            int (length scans) = E \<and> (\<forall>n\<in>set scans. n = 1 \<or> n = 2) \<and>
            (\<forall>e. 1 \<le> e \<and> e \<le> E \<longrightarrow>
               single_scan F e e use_tiebreak (V, A, 0, 0) = Some (Inr (V, A, 0, 0)))) \<and>
         (\<forall>Emin Emax \<sigma> \<sigma>'. single_scan F Emin Emax use_tiebreak \<sigma> = Some (Inr \<sigma>') \<longrightarrow>
            tables_grow \<sigma> \<sigma>')"
proof -
  have F0: "0 \<le> F" and E0: "0 \<le> E" using assms by simp_all
  from build_tables_returns[OF F0 E0, of use_tiebreak] obtain V A scans where
    b: "build_tables F E use_tiebreak = Some (Inr ((V, A), scans))"
    and n: "int (length scans) = E" "\<forall>n\<in>set scans. n = 1 \<or> n = 2"
    and ok: "\<forall>t\<in>cells_below (E + 1) F. cell_ok use_tiebreak V A t" by blast
  have "\<forall>e. 1 \<le> e \<and> e \<le> E \<longrightarrow>
               single_scan F e e use_tiebreak (V, A, 0, 0) = Some (Inr (V, A, 0, 0))"
    using final_scan_fixed[OF ok] by blast
  with b n
  have "\<exists>V A scans. build_tables F E use_tiebreak = Some (Inr ((V, A), scans)) \<and>
            int (length scans) = E \<and> (\<forall>n\<in>set scans. n = 1 \<or> n = 2) \<and>
            (\<forall>e. 1 \<le> e \<and> e \<le> E \<longrightarrow>
               single_scan F e e use_tiebreak (V, A, 0, 0) = Some (Inr (V, A, 0, 0)))" by blast
  moreover have "\<forall>Emin Emax \<sigma> \<sigma>'. single_scan F Emin Emax use_tiebreak \<sigma> = Some (Inr \<sigma>') \<longrightarrow>
            tables_grow \<sigma> \<sigma>'"
    using single_scan_grows by blast
  ultimately show ?thesis by blast
qed

theorem table_builder_terminates_witness:
  "(1::int) \<le> 3 \<and> (1::int) \<le> 2 \<and>
   (\<exists>V A. build_tables 3 2 False = Some (Inr ((V, A), [2, 2])) \<and>
      single_scan 3 2 2 False (V, A, 0, 0) = Some (Inr (V, A, 0, 0)))"
proof -
  have "(\<exists>V A scans. build_tables 3 2 False = Some (Inr ((V, A), scans)) \<and>
            int (length scans) = 2 \<and> (\<forall>n\<in>set scans. n = 1 \<or> n = 2) \<and>
            (\<forall>e. 1 \<le> e \<and> e \<le> 2 \<longrightarrow>
               single_scan 3 e e False (V, A, 0, 0) = Some (Inr (V, A, 0, 0)))) \<and>
         (\<forall>Emin Emax \<sigma> \<sigma>'. single_scan 3 Emin Emax False \<sigma> = Some (Inr \<sigma>') \<longrightarrow>
            tables_grow \<sigma> \<sigma>')"
    by (rule table_builder_terminates) simp_all
  then obtain V A scans where b: "build_tables 3 2 False = Some (Inr ((V, A), scans))"
    and f: "\<forall>e. 1 \<le> e \<and> e \<le> 2 \<longrightarrow>
               single_scan 3 e e False (V, A, 0, 0) = Some (Inr (V, A, 0, 0))" by blast
  from f have f2: "single_scan 3 2 2 False (V, A, 0, 0) = Some (Inr (V, A, 0, 0))" by simp
  from entries_3_2 b have "scans = [2, 2]" by (simp add: entries_of_def)
  with b f2 show ?thesis by auto
qed

text \<open>
  Claim C6, as amended.  For a state \<open>s\<close> and a value table \<open>V\<close> for which the worst-case values
  of the admissible actions, in increasing probe order, first do not increase and then do
  not decrease, the minimum over the list that \<open>find_admissible_actions\<close> produces with
  \<open>break_on_increase = true\<close> equals the minimum over the list it produces with
  \<open>break_on_increase = false\<close>.  (By \<open>builder_values_unimodal\<close> the tables of the builder
  meet the condition at every stored non-terminal state.)
\<close>

theorem early_stop_keeps_minimum:
  "valley (snd (find_admissible_actions s V [] [] False)) \<Longrightarrow>
   min_value (snd (find_admissible_actions s V [] [] True)) =
   min_value (snd (find_admissible_actions s V [] [] False))"
  by (rule early_stop_min)

theorem early_stop_keeps_minimum_witness:
  "valley (snd (find_admissible_actions \<lparr>eggs = 2, lb = 0, ub = 5\<rparr> table_f4 [] [] False)) \<and>
   find_admissible_actions \<lparr>eggs = 2, lb = 0, ub = 5\<rparr> table_f4 [] [] False
     = ([1, 2, 3, 4], [3, 2, 3, 4]) \<and>
   find_admissible_actions \<lparr>eggs = 2, lb = 0, ub = 5\<rparr> table_f4 [] [] True
     = ([1, 2, 3], [3, 2, 3]) \<and>
   min_value (snd (find_admissible_actions \<lparr>eggs = 2, lb = 0, ub = 5\<rparr> table_f4 [] [] True))
     = Some 2 \<and>
   min_value (snd (find_admissible_actions \<lparr>eggs = 2, lb = 0, ub = 5\<rparr> table_f4 [] [] False))
     = Some 2"
  using early_stop_keeps_minimum[of "\<lparr>eggs = 2, lb = 0, ub = 5\<rparr>" table_f4]
  by (simp add: eval_find table_f4_def)

text \<open>The claim as it was stated, for any state and any value table, fails: on the table
  \<open>table_c6\<close> the actions 1, 2, 3 of the state \<open>(2, 0, 4)\<close> have the values 2, 3, 1; the early
  stop ends the list after 2, 3 and its minimum is 2, while the minimum of the full list
  is 1.\<close>

theorem early_stop_skips_minimum:
  "find_admissible_actions \<lparr>eggs = 2, lb = 0, ub = 4\<rparr> table_c6 [] [] True = ([1, 2], [2, 3]) \<and>
   find_admissible_actions \<lparr>eggs = 2, lb = 0, ub = 4\<rparr> table_c6 [] [] False
     = ([1, 2, 3], [2, 3, 1]) \<and>
   min_value (snd (find_admissible_actions \<lparr>eggs = 2, lb = 0, ub = 4\<rparr> table_c6 [] [] True))
     \<noteq> min_value (snd (find_admissible_actions \<lparr>eggs = 2, lb = 0, ub = 4\<rparr> table_c6 [] [] False))"
  by (simp add: eval_find table_c6_def)

text \<open>
  Claim C7.  For \<open>F \<ge> 1\<close> and one egg, for every threshold \<open>L\<close> in \<open>[0, F]\<close> the trace of
  \<open>run_policy_once\<close> on the converged tables is the ascending sequence \<open>1, 2, \<dots>, L + 1\<close> with
  \<open>L + 1\<close> steps when \<open>L < F\<close>, and the sequence \<open>1, 2, \<dots>, F\<close> with \<open>F\<close> steps when \<open>L = F\<close>.
  This holds for the instance \<open>(F, E = 1)\<close> and, with any \<open>E \<ge> 1\<close>, for the runs that start with
  one egg.
\<close>

theorem one_egg_linear_search:
  assumes "1 \<le> F" "1 \<le> E" "0 \<le> L" "L \<le> F"
  shows "\<exists>V A scans. build_tables F E use_tiebreak = Some (Inr ((V, A), scans)) \<and>
           (L < F \<longrightarrow> run_policy_once F 1 L A = Some (Inr (L + 1, [1..L + 1]))) \<and>
           (L = F \<longrightarrow> run_policy_once F 1 L A = Some (Inr (F, [1..F])))"
proof -
  have F0: "0 \<le> F" and E0: "0 \<le> E" using assms by simp_all
  from build_tables_returns[OF F0 E0, of use_tiebreak] obtain V A ns where
    b: "build_tables F E use_tiebreak = Some (Inr ((V, A), ns))"
    and inv: "tables_inv F E (E + 1) V A" by blast
  from one_egg_run[OF inv assms(2) order_refl assms(3,4), of 0 "[]"]
  have run: "run_policy_once F 1 L A = Some (Inr (min (L + 1) F, [1..min (L + 1) F]))"
    by (simp add: run_policy_once_def)
  have "L < F \<longrightarrow> run_policy_once F 1 L A = Some (Inr (L + 1, [1..L + 1]))"
    using run by (simp add: min_def)
  moreover have "L = F \<longrightarrow> run_policy_once F 1 L A = Some (Inr (F, [1..F]))"
    using run by (auto simp: min_def)
  ultimately show ?thesis using b by blast
qed

theorem one_egg_linear_search_witness:
  "(1::int) \<le> 3 \<and> (1::int) \<le> 1 \<and> (0::int) \<le> 1 \<and> (1::int) \<le> 3 \<and>
   (\<exists>V A scans. build_tables 3 1 False = Some (Inr ((V, A), scans)) \<and>
      run_policy_once 3 1 1 A = Some (Inr (2, [1, 2])))"
proof -
  have "\<exists>V A scans. build_tables 3 1 False = Some (Inr ((V, A), scans)) \<and>
           ((1::int) < 3 \<longrightarrow> run_policy_once 3 1 1 A = Some (Inr (1 + 1, [1..1 + 1]))) \<and>
           ((1::int) = 3 \<longrightarrow> run_policy_once 3 1 1 A = Some (Inr (3, [1..3])))"
    by (rule one_egg_linear_search) simp_all
  moreover have "[1..1 + 1] = [1, 2::int]" by (simp add: upto.simps)
  ultimately show ?thesis by auto
qed

text \<open>
  Claim C8.  For a probe floor \<open>p\<close> with \<open>lb < p < ub\<close> and a threshold \<open>L\<close>: if \<open>p > L\<close> the
  successor \<open>next(p, L)\<close> has one egg less, upper bound \<open>min(ub, p)\<close> and the same lower
  bound; otherwise it has the same eggs, lower bound \<open>max(lb, p)\<close> and the same upper bound.
  \<open>next\<close> is a function of the state it is called on (the state \<open>eggdrop\<close> would leave
  behind, with \<open>eggdrop\<close> reporting the break), and the cost of a transition is 1.
\<close>

theorem next_state_transition:
  "lb s < p \<Longrightarrow> p < ub s \<Longrightarrow>
    next_state s p L =
      (if p > L then \<lparr>eggs = eggs s - 1, lb = lb s, ub = min (ub s) p\<rparr>
       else \<lparr>eggs = eggs s, lb = max (lb s) p, ub = ub s\<rparr>) \<and>
    snd (eggdrop s p L) = next_state s p L \<and> fst (eggdrop s p L) = (p > L) \<and>
    cost s p L = 1"
  by (simp add: next_state_eq eggdrop_next_state eggdrop_breaks cost_def)

theorem next_state_transition_witness:
  "lb \<lparr>eggs = 2, lb = 0, ub = 4\<rparr> < 2 \<and> 2 < ub \<lparr>eggs = 2, lb = 0, ub = 4\<rparr> \<and>
   next_state \<lparr>eggs = 2, lb = 0, ub = 4\<rparr> 2 1 = \<lparr>eggs = 1, lb = 0, ub = 2\<rparr> \<and>
   next_state \<lparr>eggs = 2, lb = 0, ub = 4\<rparr> 2 3 = \<lparr>eggs = 2, lb = 2, ub = 4\<rparr> \<and>
   cost \<lparr>eggs = 2, lb = 0, ub = 4\<rparr> 2 1 = 1"
  using next_state_transition[of "\<lparr>eggs = 2, lb = 0, ub = 4\<rparr>" 2 1]
    next_state_transition[of "\<lparr>eggs = 2, lb = 0, ub = 4\<rparr>" 2 3]
  by simp

text \<open>
  Claim C9.  On the converged tables of a valid instance the nominal value is monotone: for
  fixed \<open>F\<close>, \<open>V[(e, 0, F + 1)]\<close> does not increase as \<open>e\<close> grows from 1 to \<open>E\<close>; for fixed \<open>e\<close>,
  \<open>V[(e, 0, f + 1)]\<close> does not decrease as \<open>f\<close> grows from 1 to \<open>F\<close> (the table \<open>main\<close> prints), and
  the nominal value of a run with a larger floor count is not smaller.
\<close>

theorem nominal_value_monotone:
  assumes "1 \<le> F" "1 \<le> E"
  shows "\<exists>V A scans. build_tables F E use_tiebreak = Some (Inr ((V, A), scans)) \<and>
           (\<forall>e e'. 1 \<le> e \<and> e \<le> e' \<and> e' \<le> E \<longrightarrow>
              (\<exists>v v'. V \<lparr>eggs = e, lb = 0, ub = F + 1\<rparr> = Some v \<and>
                       V \<lparr>eggs = e', lb = 0, ub = F + 1\<rparr> = Some v' \<and> v' \<le> v)) \<and>
           (\<forall>e f f'. 1 \<le> e \<and> e \<le> E \<and> 1 \<le> f \<and> f \<le> f' \<and> f' \<le> F \<longrightarrow>
              (\<exists>v v'. V \<lparr>eggs = e, lb = 0, ub = f + 1\<rparr> = Some v \<and>
                       V \<lparr>eggs = e, lb = 0, ub = f' + 1\<rparr> = Some v' \<and> v \<le> v')) \<and>
           (\<forall>F' tiebreak' V' A' scans' e.
              F \<le> F' \<and> 1 \<le> e \<and> e \<le> E \<and>
              build_tables F' E tiebreak' = Some (Inr ((V', A'), scans')) \<longrightarrow>
              (\<exists>v v'. V \<lparr>eggs = e, lb = 0, ub = F + 1\<rparr> = Some v \<and>
                       V' \<lparr>eggs = e, lb = 0, ub = F' + 1\<rparr> = Some v' \<and> v \<le> v'))"
proof -
  have F0: "0 \<le> F" and E0: "0 \<le> E" using assms by simp_all
  from build_tables_returns[OF F0 E0, of use_tiebreak] obtain V A ns where
    b: "build_tables F E use_tiebreak = Some (Inr ((V, A), ns))"
    and inv: "tables_inv F E (E + 1) V A" by blast
  have eggs: "\<forall>e e'. 1 \<le> e \<and> e \<le> e' \<and> e' \<le> E \<longrightarrow>
              (\<exists>v v'. V \<lparr>eggs = e, lb = 0, ub = F + 1\<rparr> = Some v \<and>
                       V \<lparr>eggs = e', lb = 0, ub = F + 1\<rparr> = Some v' \<and> v' \<le> v)"
  proof (intro allI impI)
    fix e e' assume h: "1 \<le> e \<and> e \<le> e' \<and> e' \<le> E"
    then have r: "1 \<le> e" "e \<le> E" "1 \<le> e'" "e' \<le> E" "e \<le> e'" by simp_all
    have "V \<lparr>eggs = e, lb = 0, ub = F + 1\<rparr> = Some (val_of \<lparr>eggs = e, lb = 0, ub = F + 1\<rparr>)"
      using final_entry[OF inv r(1,2), of 0 "F + 1"] F0 by simp
    moreover have "V \<lparr>eggs = e', lb = 0, ub = F + 1\<rparr> = Some (val_of \<lparr>eggs = e', lb = 0, ub = F + 1\<rparr>)"
      using final_entry[OF inv r(3,4), of 0 "F + 1"] F0 by simp
    moreover note val_of_mono_eggs[OF r(1,5), of 0 "F + 1"]
    ultimately show "\<exists>v v'. V \<lparr>eggs = e, lb = 0, ub = F + 1\<rparr> = Some v \<and>
                       V \<lparr>eggs = e', lb = 0, ub = F + 1\<rparr> = Some v' \<and> v' \<le> v" by blast
  qed
  have floors: "\<forall>e f f'. 1 \<le> e \<and> e \<le> E \<and> 1 \<le> f \<and> f \<le> f' \<and> f' \<le> F \<longrightarrow>
              (\<exists>v v'. V \<lparr>eggs = e, lb = 0, ub = f + 1\<rparr> = Some v \<and>
                       V \<lparr>eggs = e, lb = 0, ub = f' + 1\<rparr> = Some v' \<and> v \<le> v')"
  proof (intro allI impI)
    fix e f f' assume h: "1 \<le> e \<and> e \<le> E \<and> 1 \<le> f \<and> f \<le> f' \<and> f' \<le> F"
    then have r: "1 \<le> e" "e \<le> E" "f \<le> f'" by simp_all
    have "V \<lparr>eggs = e, lb = 0, ub = f + 1\<rparr> = Some (val_of \<lparr>eggs = e, lb = 0, ub = f + 1\<rparr>)"
      using final_entry[OF inv r(1,2), of 0 "f + 1"] h by simp
    moreover have "V \<lparr>eggs = e, lb = 0, ub = f' + 1\<rparr> = Some (val_of \<lparr>eggs = e, lb = 0, ub = f' + 1\<rparr>)"
      using final_entry[OF inv r(1,2), of 0 "f' + 1"] h by simp
    moreover have "val_of \<lparr>eggs = e, lb = 0, ub = f + 1\<rparr> \<le> val_of \<lparr>eggs = e, lb = 0, ub = f' + 1\<rparr>"
      using r(3) by (intro val_of_mono_width[OF r(1)]) simp
    ultimately show "\<exists>v v'. V \<lparr>eggs = e, lb = 0, ub = f + 1\<rparr> = Some v \<and>
                       V \<lparr>eggs = e, lb = 0, ub = f' + 1\<rparr> = Some v' \<and> v \<le> v'" by blast
  qed
  have runs: "\<forall>F' tiebreak' V' A' scans' e.
              F \<le> F' \<and> 1 \<le> e \<and> e \<le> E \<and>
              build_tables F' E tiebreak' = Some (Inr ((V', A'), scans')) \<longrightarrow>
              (\<exists>v v'. V \<lparr>eggs = e, lb = 0, ub = F + 1\<rparr> = Some v \<and>
                       V' \<lparr>eggs = e, lb = 0, ub = F' + 1\<rparr> = Some v' \<and> v \<le> v')"
  proof (intro allI impI)
    fix F' tiebreak' V' A' scans' e
    assume h: "F \<le> F' \<and> 1 \<le> e \<and> e \<le> E \<and>
               build_tables F' E tiebreak' = Some (Inr ((V', A'), scans'))"
    then have r: "1 \<le> e" "e \<le> E" "F \<le> F'" by simp_all
    have F0': "0 \<le> F'" using F0 r(3) by simp
    from build_tables_returns[OF F0' E0, of tiebreak'] h
    have inv': "tables_inv F' E (E + 1) V' A'" by auto
    have "V \<lparr>eggs = e, lb = 0, ub = F + 1\<rparr> = Some (val_of \<lparr>eggs = e, lb = 0, ub = F + 1\<rparr>)"
      using final_entry[OF inv r(1,2), of 0 "F + 1"] F0 by simp
    moreover have "V' \<lparr>eggs = e, lb = 0, ub = F' + 1\<rparr> = Some (val_of \<lparr>eggs = e, lb = 0, ub = F' + 1\<rparr>)"
      using final_entry[OF inv' r(1,2), of 0 "F' + 1"] F0' by simp
    moreover have "val_of \<lparr>eggs = e, lb = 0, ub = F + 1\<rparr> \<le> val_of \<lparr>eggs = e, lb = 0, ub = F' + 1\<rparr>"
      using r(3) by (intro val_of_mono_width[OF r(1)]) simp
    ultimately show "\<exists>v v'. V \<lparr>eggs = e, lb = 0, ub = F + 1\<rparr> = Some v \<and>
                       V' \<lparr>eggs = e, lb = 0, ub = F' + 1\<rparr> = Some v' \<and> v \<le> v'" by blast
  qed
  from b eggs floors runs show ?thesis by blast
qed

theorem nominal_value_monotone_witness:
  "(1::int) \<le> 3 \<and> (1::int) \<le> 2 \<and>
   (\<exists>V A scans. build_tables 3 2 False = Some (Inr ((V, A), scans)) \<and>
      V \<lparr>eggs = 1, lb = 0, ub = 4\<rparr> = Some 3 \<and> V \<lparr>eggs = 2, lb = 0, ub = 4\<rparr> = Some 2 \<and>
      (\<exists>v. V \<lparr>eggs = 2, lb = 0, ub = 3\<rparr> = Some v \<and> v \<le> 2))"
proof -
  have "\<exists>V A scans. build_tables 3 2 False = Some (Inr ((V, A), scans)) \<and>
           (\<forall>e e'. 1 \<le> e \<and> e \<le> e' \<and> e' \<le> 2 \<longrightarrow>
              (\<exists>v v'. V \<lparr>eggs = e, lb = 0, ub = 3 + 1\<rparr> = Some v \<and>
                       V \<lparr>eggs = e', lb = 0, ub = 3 + 1\<rparr> = Some v' \<and> v' \<le> v)) \<and>
           (\<forall>e f f'. 1 \<le> e \<and> e \<le> 2 \<and> 1 \<le> f \<and> f \<le> f' \<and> f' \<le> 3 \<longrightarrow>
              (\<exists>v v'. V \<lparr>eggs = e, lb = 0, ub = f + 1\<rparr> = Some v \<and>
                       V \<lparr>eggs = e, lb = 0, ub = f' + 1\<rparr> = Some v' \<and> v \<le> v')) \<and>
           (\<forall>F' tiebreak' V' A' scans' e.
              3 \<le> F' \<and> 1 \<le> e \<and> e \<le> 2 \<and>
              build_tables F' 2 tiebreak' = Some (Inr ((V', A'), scans')) \<longrightarrow>
              (\<exists>v v'. V \<lparr>eggs = e, lb = 0, ub = 3 + 1\<rparr> = Some v \<and>
                       V' \<lparr>eggs = e, lb = 0, ub = F' + 1\<rparr> = Some v' \<and> v \<le> v'))"
    by (rule nominal_value_monotone) simp_all
  then obtain V A scans where
    b: "build_tables 3 2 False = Some (Inr ((V, A), scans))"
    and fl: "\<forall>e f f'. 1 \<le> e \<and> e \<le> 2 \<and> 1 \<le> f \<and> f \<le> f' \<and> f' \<le> 3 \<longrightarrow>
              (\<exists>v v'. V \<lparr>eggs = e, lb = 0, ub = f + 1\<rparr> = Some v \<and>
                       V \<lparr>eggs = e, lb = 0, ub = f' + 1\<rparr> = Some v' \<and> v \<le> v')"
    by blast
  from entries_3_2 b have v: "V \<lparr>eggs = 1, lb = 0, ub = 4\<rparr> = Some 3"
    "V \<lparr>eggs = 2, lb = 0, ub = 4\<rparr> = Some 2" by (simp_all add: entries_of_def)
  have "\<exists>v v'. V \<lparr>eggs = 2, lb = 0, ub = 2 + 1\<rparr> = Some v \<and>
                       V \<lparr>eggs = 2, lb = 0, ub = 3 + 1\<rparr> = Some v' \<and> v \<le> v'"
    using fl[rule_format, of 2 2 3] by simp
  with v(2) have "\<exists>v. V \<lparr>eggs = 2, lb = 0, ub = 3\<rparr> = Some v \<and> v \<le> 2" by auto
  with b v have "\<exists>V A scans. build_tables 3 2 False = Some (Inr ((V, A), scans)) \<and>
      V \<lparr>eggs = 1, lb = 0, ub = 4\<rparr> = Some 3 \<and> V \<lparr>eggs = 2, lb = 0, ub = 4\<rparr> = Some 2 \<and>
      (\<exists>v. V \<lparr>eggs = 2, lb = 0, ub = 3\<rparr> = Some v \<and> v \<le> 2)" by blast
  then show ?thesis by simp
qed

text \<open>
  Claim C10.  From a state with \<open>0 \<le> lb < ub\<close>, a probe \<open>p\<close> with \<open>lb < p < ub\<close> and any
  threshold lead to a state that again has \<open>0 \<le> lb' < ub'\<close> and a strictly smaller width
  \<open>ub' - lb'\<close>.  Hence a run of in-range probes has at most \<open>ub - lb - 1\<close> steps, a run of
  exactly that many steps ends with \<open>ub = lb + 1\<close>, and so does every run that no in-range
  probe can extend; the loop of \<open>run_policy_once\<close>, on a table of in-range probes, stops
  within \<open>ub - lb - 1\<close> iterations.
\<close>

theorem interval_width_decreases:
  assumes "0 \<le> lb s" and "lb s < ub s"
  shows "(\<forall>p L. lb s < p \<and> p < ub s \<longrightarrow>
            0 \<le> lb (next_state s p L) \<and> lb (next_state s p L) < ub (next_state s p L) \<and>
            ub (next_state s p L) - lb (next_state s p L) < ub s - lb s) \<and>
         (\<forall>ps s'. probe_run s ps = Some s' \<longrightarrow>
            int (length ps) \<le> ub s - lb s - 1 \<and> 0 \<le> lb s' \<and> lb s' < ub s' \<and>
            (int (length ps) = ub s - lb s - 1 \<longrightarrow> ub s' = lb s' + 1) \<and>
            ((\<forall>p. \<not> (lb s' < p \<and> p < ub s')) \<longrightarrow> ub s' = lb s' + 1)) \<and>
         (\<forall>A L n xs. (\<forall>t a. A t = Some a \<longrightarrow> lb t < a \<and> a < ub t) \<longrightarrow>
            (\<exists>r. policy_loop A L s n xs = Some r \<and>
               (\<forall>n' xs'. r = Inr (n', xs') \<longrightarrow> n \<le> n' \<and> n' - n \<le> ub s - lb s - 1)))"
proof (intro conjI allI impI)
  fix ps s'
  assume run: "probe_run s ps = Some s'"
  from probe_run_bound[OF assms run]
  have b: "0 \<le> lb s'" "lb s' < ub s'" "int (length ps) \<le> (ub s - lb s) - (ub s' - lb s')"
    by simp_all
  show "int (length ps) \<le> ub s - lb s - 1" "0 \<le> lb s'" "lb s' < ub s'"
    using b by simp_all
  {
    assume "int (length ps) = ub s - lb s - 1"
    with b show "ub s' = lb s' + 1" by simp
  }
  {
    assume none: "\<forall>p. \<not> (lb s' < p \<and> p < ub s')"
    show "ub s' = lb s' + 1"
    proof (rule ccontr)
      assume "ub s' \<noteq> lb s' + 1"
      with b have "lb s' < lb s' + 1 \<and> lb s' + 1 < ub s'" by simp
      with none show False by blast
    qed
  }
next
  fix A :: table and L n :: int and xs :: "int list"
  assume "\<forall>t a. A t = Some a \<longrightarrow> lb t < a \<and> a < ub t"
  from policy_loop_inrange_total[OF this assms]
  show "\<exists>r. policy_loop A L s n xs = Some r \<and>
            (\<forall>n' xs'. r = Inr (n', xs') \<longrightarrow> n \<le> n' \<and> n' - n \<le> ub s - lb s - 1)" .
qed (use assms next_state_shrinks in auto)

theorem interval_width_decreases_witness:
  "0 \<le> lb \<lparr>eggs = 2, lb = 0, ub = 3\<rparr> \<and> lb \<lparr>eggs = 2, lb = 0, ub = 3\<rparr> < ub \<lparr>eggs = 2, lb = 0, ub = 3\<rparr> \<and>
   ub (next_state \<lparr>eggs = 2, lb = 0, ub = 3\<rparr> 2 1) - lb (next_state \<lparr>eggs = 2, lb = 0, ub = 3\<rparr> 2 1)
     < ub \<lparr>eggs = 2, lb = 0, ub = 3\<rparr> - lb \<lparr>eggs = 2, lb = 0, ub = 3\<rparr> \<and>
   probe_run \<lparr>eggs = 2, lb = 0, ub = 3\<rparr> [(2, 1), (1, 1)] = Some \<lparr>eggs = 1, lb = 1, ub = 2\<rparr> \<and>
   int (length [(2::int, 1::int), (1, 1)]) \<le> ub \<lparr>eggs = 2, lb = 0, ub = 3\<rparr> - lb \<lparr>eggs = 2, lb = 0, ub = 3\<rparr> - 1"
  using interval_width_decreases[of "\<lparr>eggs = 2, lb = 0, ub = 3\<rparr>"]
  by (simp add: next_state_eq)

end
